theory Spec2Isabelle
  imports Main "HOL-Library.AList" "HOL-Library.Multiset"
begin

section \<open>Shared JavaScript notions\<close>

text \<open>
  The three components (event bus, module loader, state store) are closures over a few
  mutable variables. Each becomes a record of those variables, and every exported function
  takes the record and returns the updated one. Two fields are added to each record for
  observation only: what the component printed on the console, and which callbacks or
  factories it invoked, in order.

  A JavaScript function value is a reference: two functions are \<open>===\<close> only when they
  are the same object. Callbacks and factories are therefore natural numbers (references),
  and an environment gives the behaviour of each reference: applied to its arguments it
  returns a result or throws. Callbacks in this model do not call back into the component
  that is running them.
\<close>

datatype 'r outcome = Returns 'r | Throws string

text \<open>
  Template literals and array spreading print a non-negative integer in decimal.
\<close>

function digits :: "nat \<Rightarrow> string" where
  "digits n =
     (if n < 10 then [''0123456789'' ! n]
      else digits (n div 10) @ [''0123456789'' ! (n mod 10)])"
  by pat_completeness auto
termination
  by (relation "measure id") auto

declare digits.simps [simp del]


section \<open>Event bus (EventBusModule)\<close>

text \<open>
  \<open>listeners\<close> and \<open>onceListeners\<close> are \<open>Map\<close>s from an event name to an array of
  \<open>{ id, callback, priority }\<close>; \<open>listenerIdCounter\<close> is the counter behind the ids.
  Event names are strings; the empty string is the falsy event name.
\<close>

record listener =
  lid :: string
  callback :: nat
  priority :: int

datatype 'p cbargs = Plain 'p | WithEvent string 'p

datatype buslog = CallbackNotFunction | ListenerError string string

record 'p bus =
  listeners :: "string \<rightharpoonup> listener list"
  onceListeners :: "string \<rightharpoonup> listener list"
  listenerIdCounter :: nat
  console :: "buslog list"
  invoked :: "(listener \<times> 'p cbargs) list"

text \<open>\<open>map.get(event) || []\<close>\<close>

definition get_or_empty :: "(string \<rightharpoonup> listener list) \<Rightarrow> string \<Rightarrow> listener list" where
  "get_or_empty m event = (case m event of None \<Rightarrow> [] | Some ls \<Rightarrow> ls)"

text \<open>
  \<open>arr.sort((a, b) => b.priority - a.priority)\<close>: a stable sort by descending priority.
\<close>

definition by_priority :: "listener list \<Rightarrow> listener list" where
  "by_priority ls = sort_key (\<lambda>l. - priority l) ls"

text \<open>
  \<open>on(event, callback, priority = 0)\<close>. The callback argument is \<open>Some f\<close> for a function
  and \<open>None\<close> for any other value; the result is the id, or \<open>None\<close> for \<open>null\<close>.
\<close>

definition on :: "string \<Rightarrow> nat option \<Rightarrow> int \<Rightarrow> 'p bus \<Rightarrow> string option \<times> 'p bus" where
  "on event cb prio b =
     (case cb of
        None \<Rightarrow> (None, b\<lparr>console := console b @ [CallbackNotFunction]\<rparr>)
      | Some f \<Rightarrow>
          (let n = Suc (listenerIdCounter b);
               i = ''listener_'' @ digits n;
               l = \<lparr>lid = i, callback = f, priority = prio\<rparr>;
               ls = by_priority (get_or_empty (listeners b) event @ [l])
           in (Some i, b\<lparr>listenerIdCounter := n, listeners := (listeners b)(event \<mapsto> ls)\<rparr>)))"

definition once :: "string \<Rightarrow> nat option \<Rightarrow> int \<Rightarrow> 'p bus \<Rightarrow> string option \<times> 'p bus" where
  "once event cb prio b =
     (case cb of
        None \<Rightarrow> (None, b\<lparr>console := console b @ [CallbackNotFunction]\<rparr>)
      | Some f \<Rightarrow>
          (let n = Suc (listenerIdCounter b);
               i = ''once_'' @ digits n;
               l = \<lparr>lid = i, callback = f, priority = prio\<rparr>;
               ls = by_priority (get_or_empty (onceListeners b) event @ [l])
           in (Some i, b\<lparr>listenerIdCounter := n, onceListeners := (onceListeners b)(event \<mapsto> ls)\<rparr>)))"

text \<open>
  The second argument of \<open>off\<close>: \<open>undefined\<close>, a string (compared with the ids), a function
  (compared with the callbacks), or any other value, which equals no id and no callback.
\<close>

datatype target = Undefined | IdString string | Function nat | OtherValue

definition matches :: "target \<Rightarrow> listener \<Rightarrow> bool" where
  "matches t l =
     (case t of IdString s \<Rightarrow> lid l = s | Function f \<Rightarrow> callback l = f | _ \<Rightarrow> False)"

text \<open>
  The two backward loops of \<open>off\<close> splice every matching entry out of the array, which
  leaves the entries that do not match, in order; an array left empty (or absent) is
  deleted from its map.
\<close>

definition splice_out :: "target \<Rightarrow> string \<Rightarrow> (string \<rightharpoonup> listener list) \<Rightarrow> (string \<rightharpoonup> listener list)" where
  "splice_out t event m =
     (let kept = filter (\<lambda>l. \<not> matches t l) (get_or_empty m event)
      in if kept = [] then m(event := None) else m(event \<mapsto> kept))"

definition off :: "string \<Rightarrow> target \<Rightarrow> 'p bus \<Rightarrow> bool option \<times> 'p bus" where
  "off event t b =
     (if t = Undefined then
        (if event \<noteq> [] then
           (None, b\<lparr>listeners := (listeners b)(event := None),
                     onceListeners := (onceListeners b)(event := None)\<rparr>)
         else (None, b\<lparr>listeners := Map.empty, onceListeners := Map.empty\<rparr>))
      else
        (let removed = (\<exists>l \<in> set (get_or_empty (listeners b) event @
                                      get_or_empty (onceListeners b) event). matches t l)
         in (Some removed,
             b\<lparr>listeners := splice_out t event (listeners b),
               onceListeners := splice_out t event (onceListeners b)\<rparr>)))"

text \<open>The snapshot \<open>allListeners\<close> that \<open>emit\<close> builds before it dispatches.\<close>

record tagged =
  entry :: listener
  isOnce :: bool
  isWildcard :: bool

definition allListeners :: "'p bus \<Rightarrow> string \<Rightarrow> tagged list" where
  "allListeners b event =
     map (\<lambda>l. \<lparr>entry = l, isOnce = False, isWildcard = False\<rparr>) (get_or_empty (listeners b) event) @
     map (\<lambda>l. \<lparr>entry = l, isOnce = True, isWildcard = False\<rparr>) (get_or_empty (onceListeners b) event) @
     map (\<lambda>l. \<lparr>entry = l, isOnce = False, isWildcard = True\<rparr>) (get_or_empty (listeners b) ''*'') @
     map (\<lambda>l. \<lparr>entry = l, isOnce = True, isWildcard = True\<rparr>) (get_or_empty (onceListeners b) ''*'')"

text \<open>
  One iteration of the dispatch loop: the call inside \<open>try\<close>, the \<open>catch\<close> that logs, and the
  removal of a once entry by \<open>off(event, listener.id)\<close>.
\<close>

definition dispatch_one ::
  "(nat \<Rightarrow> 'p cbargs \<Rightarrow> 'r outcome) \<Rightarrow> string \<Rightarrow> 'p \<Rightarrow> tagged \<Rightarrow> 'r list \<times> 'p bus \<Rightarrow> 'r list \<times> 'p bus" where
  "dispatch_one env event payload l st =
     (let results = fst st; b = snd st;
          args = (if isWildcard l then WithEvent event payload else Plain payload);
          b1 = b\<lparr>invoked := invoked b @ [(entry l, args)]\<rparr>;
          st1 = (case env (callback (entry l)) args of
                   Returns v \<Rightarrow> (results @ [v], b1)
                 | Throws e \<Rightarrow> (results, b1\<lparr>console := console b1 @ [ListenerError event e]\<rparr>))
      in if isOnce l then (fst st1, snd (off event (IdString (lid (entry l))) (snd st1)))
         else st1)"

text \<open>
  The loop \<open>for (let i = allListeners.length - 1; i >= 0; i--)\<close> visits the snapshot from
  its last element to its first.
\<close>

fun dispatch ::
  "(nat \<Rightarrow> 'p cbargs \<Rightarrow> 'r outcome) \<Rightarrow> string \<Rightarrow> 'p \<Rightarrow> tagged list \<Rightarrow> 'r list \<times> 'p bus \<Rightarrow> 'r list \<times> 'p bus" where
  "dispatch env event payload [] st = st"
| "dispatch env event payload (l # ls) st =
     dispatch env event payload ls (dispatch_one env event payload l st)"

definition emit ::
  "(nat \<Rightarrow> 'p cbargs \<Rightarrow> 'r outcome) \<Rightarrow> string \<Rightarrow> 'p \<Rightarrow> 'p bus \<Rightarrow> 'r list \<times> 'p bus" where
  "emit env event payload b = dispatch env event payload (rev (allListeners b event)) ([], b)"

definition getListenerCount :: "'p bus \<Rightarrow> string \<Rightarrow> nat" where
  "getListenerCount b event =
     length (get_or_empty (listeners b) event) + length (get_or_empty (onceListeners b) event)"

text \<open>The bus when the module has just been loaded.\<close>

definition bus0 :: "'p bus" where
  "bus0 = \<lparr>listeners = Map.empty, onceListeners = Map.empty, listenerIdCounter = 0,
           console = [], invoked = []\<rparr>"


text \<open>
  Vocabulary for statements about the bus: the arguments a snapshot entry is called with,
  the values a list of outcomes returned and the messages it threw, and a run of the bus
  over a list of calls that collects the ids \<open>on\<close> and \<open>once\<close> hand out.
\<close>

definition call_args :: "string \<Rightarrow> 'p \<Rightarrow> tagged \<Rightarrow> 'p cbargs" where
  "call_args event payload l = (if isWildcard l then WithEvent event payload else Plain payload)"

primrec returned :: "'r outcome list \<Rightarrow> 'r list" where
  "returned [] = []"
| "returned (x # xs) = (case x of Returns v \<Rightarrow> v # returned xs | Throws e \<Rightarrow> returned xs)"

primrec thrown :: "'r outcome list \<Rightarrow> string list" where
  "thrown [] = []"
| "thrown (x # xs) = (case x of Returns v \<Rightarrow> thrown xs | Throws e \<Rightarrow> e # thrown xs)"

datatype 'p busop =
  On string "nat option" int | Once string "nat option" int | Off string target | Emit string 'p

fun apply_op ::
  "(nat \<Rightarrow> 'p cbargs \<Rightarrow> 'r outcome) \<Rightarrow> 'p busop \<Rightarrow> 'p bus \<Rightarrow> string option \<times> 'p bus" where
  "apply_op env (On e cb p) b = on e cb p b"
| "apply_op env (Once e cb p) b = once e cb p b"
| "apply_op env (Off e t) b = (None, snd (off e t b))"
| "apply_op env (Emit e d) b = (None, snd (emit env e d b))"

fun run ::
  "(nat \<Rightarrow> 'p cbargs \<Rightarrow> 'r outcome) \<Rightarrow> 'p busop list \<Rightarrow> 'p bus \<Rightarrow> string list \<times> 'p bus" where
  "run env [] b = ([], b)"
| "run env (x # xs) b =
     (let r = apply_op env x b; rs = run env xs (snd r)
      in ((case fst r of None \<Rightarrow> [] | Some i \<Rightarrow> [i]) @ fst rs, snd rs))"

text \<open>
  The ids a bus can have handed out when its counter stands at \<open>n\<close>, the ids held under
  one event, and the invariant of the bus: ids under an event are pairwise different and
  were all handed out.
\<close>

definition issued :: "nat \<Rightarrow> string set" where
  "issued n = {s. \<exists>k. k \<le> n \<and> (s = ''listener_'' @ digits k \<or> s = ''once_'' @ digits k)}"

definition ids_of :: "'p bus \<Rightarrow> string \<Rightarrow> string list" where
  "ids_of b e = map lid (get_or_empty (listeners b) e @ get_or_empty (onceListeners b) e)"

definition bus_inv :: "'p bus \<Rightarrow> bool" where
  "bus_inv b = (\<forall>e. distinct (ids_of b e) \<and> set (ids_of b e) \<subseteq> issued (listenerIdCounter b))"


section \<open>Module loader (ModuleLoader)\<close>

text \<open>
  \<open>modules\<close> is an object used as a dictionary from a module name to
  \<open>{ factory, deps, instance }\<close>; it is an association list in insertion order, read with
  \<open>map_of\<close> and written with \<open>AList.update\<close>. Names inherited from \<open>Object.prototype\<close>
  are left aside: a name is in \<open>modules\<close> only when it was registered.
  \<open>dependencies\<close> is written by \<open>register\<close> and never read. \<open>initializedModules\<close> is a
  \<open>Set\<close>.

  An instance is whatever truthy value a factory returns; what matters of it is its
  identity and its \<open>init\<close> member: not a function, a function that returns, or a function
  that throws. A factory is a reference; applied to the instances of its dependencies
  (\<open>None\<close> for \<open>null\<close>) it returns a falsy value, returns an instance or throws.
\<close>

datatype init_method = NoInit | InitReturns | InitThrows

datatype module_instance = Instance (ident: nat) (init_method: init_method)

datatype fresult = Falsy | Truthy module_instance | FactoryThrows string

record module_entry =
  factory :: nat
  deps :: "string list"
  inst :: "module_instance option"

text \<open>One constructor for each \<open>console.error\<close> and \<open>console.warn\<close> of the loader.\<close>

datatype loaderlog =
    EmptyName | FactoryNotFunction string
  | CycleDetected string | ModuleMissing string
  | NotRegistered string | NotInitialized string
  | CannotInit string | DependencyFailed string | CreationFailed string
  | InitException string string

record loader =
  modules :: "(string \<times> module_entry) list"
  dependencies :: "(string \<times> string list) list"
  initializedModules :: "string set"
  loader_console :: "loaderlog list"
  factory_calls :: "(string \<times> nat \<times> module_instance option list) list"

definition loader0 :: loader where
  "loader0 = \<lparr>modules = [], dependencies = [], initializedModules = {}, loader_console = [],
               factory_calls = []\<rparr>"

text \<open>
  \<open>name.trim() === ''\<close>: every character of the name is white space. Names are ASCII.
\<close>

definition blank :: "string \<Rightarrow> bool" where
  "blank s = list_all (\<lambda>c. c \<in> set [CHR 0x09, CHR 0x0A, CHR 0x0B, CHR 0x0C, CHR 0x0D, CHR '' '']) s"

text \<open>
  \<open>register(name, moduleFactory, deps)\<close>. The factory argument is \<open>Some f\<close> for a function;
  \<open>deps\<close> is \<open>None\<close> when it is left out. The entry is stored by assignment, whether or not
  the name is already there.
\<close>

definition register :: "string \<Rightarrow> nat option \<Rightarrow> string list option \<Rightarrow> loader \<Rightarrow> loader" where
  "register name moduleFactory ds L =
     (if blank name then L\<lparr>loader_console := loader_console L @ [EmptyName]\<rparr>
      else case moduleFactory of
        None \<Rightarrow> L\<lparr>loader_console := loader_console L @ [FactoryNotFunction name]\<rparr>
      | Some f \<Rightarrow>
          (let L1 = L\<lparr>modules := AList.update name
                        \<lparr>factory = f, deps = (case ds of None \<Rightarrow> [] | Some d \<Rightarrow> d), inst = None\<rparr>
                        (modules L)\<rparr>
           in case ds of
                None \<Rightarrow> L1
              | Some d \<Rightarrow> (if d \<noteq> [] then L1\<lparr>dependencies := AList.update name d (dependencies L1)\<rparr>
                          else L1)))"

text \<open>\<open>if (!resolved.includes(dep)) resolved.push(dep)\<close>\<close>

definition push_new :: "string \<Rightarrow> string list \<Rightarrow> string list" where
  "push_new dep resolved = (if dep \<in> set resolved then resolved else resolved @ [dep])"

text \<open>
  \<open>resolveDependencies(name, visited)\<close> and the body of its \<open>deps.forEach\<close>. The pair
  \<open>vc\<close> is the \<open>visited\<close> set, shared by all recursive calls, and the console. A call from
  outside passes the empty set for \<open>visited\<close>.
\<close>

function resolveDependencies ::
    "(string \<times> module_entry) list \<Rightarrow> string \<Rightarrow> string set \<times> loaderlog list \<Rightarrow>
       string list \<times> string set \<times> loaderlog list"
  and resolveEach ::
    "(string \<times> module_entry) list \<Rightarrow> string list \<Rightarrow> string list \<Rightarrow> string set \<times> loaderlog list \<Rightarrow>
       string list \<times> string set \<times> loaderlog list"
where
  "resolveDependencies ms name vc =
     (if name \<in> fst vc then ([], fst vc, snd vc @ [CycleDetected name])
      else case map_of ms name of
        None \<Rightarrow> ([], fst vc, snd vc @ [ModuleMissing name])
      | Some m \<Rightarrow> resolveEach ms (deps m) [] (insert name (fst vc), snd vc))"
| "resolveEach ms [] resolved vc = (resolved, vc)"
| "resolveEach ms (dep # rest) resolved vc =
     (if dep \<notin> fst vc then
        (case resolveDependencies ms dep vc of
           (depDeps, vc') \<Rightarrow> resolveEach ms rest (push_new dep (resolved @ depDeps)) vc')
      else resolveEach ms rest (push_new dep resolved) vc)"
  by pat_completeness auto

lemma visited_grows:
  "resolveDependencies_resolveEach_dom (Inl (ms, name, vc)) \<Longrightarrow>
     fst vc \<subseteq> fst (snd (resolveDependencies ms name vc))"
  "resolveDependencies_resolveEach_dom (Inr (ms, ds, resolved, vc)) \<Longrightarrow>
     fst vc \<subseteq> fst (snd (resolveEach ms ds resolved vc))"
proof (induct ms name vc and ms ds resolved vc rule: resolveDependencies_resolveEach.pinduct)
  case (1 ms name vc)
  then show ?case
    by (auto simp: resolveDependencies.psimps split: option.splits)
next
  case (2 ms resolved vc)
  then show ?case by (simp add: resolveEach.psimps)
next
  case (3 ms dep rest resolved vc)
  show ?case
  proof (cases "dep \<in> fst vc")
    case True
    with 3 show ?thesis by (simp add: resolveEach.psimps)
  next
    case False
    obtain depDeps vc' where r: "resolveDependencies ms dep vc = (depDeps, vc')"
      by (cases "resolveDependencies ms dep vc") auto
    from 3(2) [OF False] r have a: "fst vc \<subseteq> fst vc'" by simp
    from 3(3) [OF False r [symmetric]]
    have "fst vc' \<subseteq> fst (snd (resolveEach ms rest (push_new dep (resolved @ depDeps)) vc'))"
      by simp
    with a False r 3(1) show ?thesis by (simp add: resolveEach.psimps)
  qed
qed

termination resolveDependencies
proof (relation "measures [\<lambda>x. case x of
                       Inl (ms, name, vc) \<Rightarrow> card (fst ` set ms - fst vc)
                     | Inr (ms, ds, resolved, vc) \<Rightarrow> card (fst ` set ms - fst vc),
                    \<lambda>x. case x of Inl _ \<Rightarrow> 0 | Inr (ms, ds, resolved, vc) \<Rightarrow> Suc (length ds)]",
       goal_cases)
  case 1
  then show ?case by simp
next
  case (2 ms name vc m)
  then have "name \<in> fst ` set ms" by (metis map_of_SomeD fst_conv image_eqI)
  with 2 have "card (fst ` set ms - insert name (fst vc)) < card (fst ` set ms - fst vc)"
    by (intro psubset_card_mono) auto
  then show ?case by simp
next
  case (3 ms dep rest resolved vc)
  then show ?case by simp
next
  case (4 ms dep rest resolved vc depDeps vc')
  from 4(2) [symmetric] 4(3) visited_grows(1) [of ms dep vc] have "fst vc \<subseteq> fst vc'" by simp
  then have "card (fst ` set ms - fst vc') \<le> card (fst ` set ms - fst vc)"
    by (intro card_mono) auto
  then show ?case by auto
next
  case (5 ms dep rest resolved vc)
  then show ?case by simp
qed

declare resolveDependencies.simps [simp del]

text \<open>\<open>get(name)\<close>\<close>

definition get :: "string \<Rightarrow> loader \<Rightarrow> module_instance option \<times> loader" where
  "get name L =
     (case map_of (modules L) name of
        None \<Rightarrow> (None, L\<lparr>loader_console := loader_console L @ [NotRegistered name]\<rparr>)
      | Some m \<Rightarrow>
          (case inst m of
             None \<Rightarrow> (None, L\<lparr>loader_console := loader_console L @ [NotInitialized name]\<rparr>)
           | Some i \<Rightarrow> (Some i, L)))"

text \<open>\<open>modules[dep] && modules[dep].instance ? modules[dep].instance : null\<close>\<close>

definition instance_of :: "loader \<Rightarrow> string \<Rightarrow> module_instance option" where
  "instance_of L dep = (case map_of (modules L) dep of None \<Rightarrow> None | Some m \<Rightarrow> inst m)"

text \<open>
  The \<open>try\<close> block of \<open>initModule\<close>: the factory is applied to the instances of the
  dependencies; a truthy result is stored and the name added to \<open>initializedModules\<close>
  before the instance's own \<open>init\<close> runs; a throw anywhere in the block is caught, logged
  and answered with \<open>false\<close>.
\<close>

definition construct ::
  "(nat \<Rightarrow> module_instance option list \<Rightarrow> fresult) \<Rightarrow> string \<Rightarrow> string list \<Rightarrow> loader \<Rightarrow> bool \<times> loader" where
  "construct env name ds L =
     (case map_of (modules L) name of
        None \<Rightarrow> (False, L\<lparr>loader_console := loader_console L @ [InitException name ''TypeError'']\<rparr>)
      | Some m \<Rightarrow>
          (let depInstances = map (instance_of L) ds;
               L1 = L\<lparr>factory_calls := factory_calls L @ [(name, factory m, depInstances)]\<rparr>
           in case env (factory m) depInstances of
                FactoryThrows e \<Rightarrow> (False, L1\<lparr>loader_console := loader_console L1 @ [InitException name e]\<rparr>)
              | Falsy \<Rightarrow> (False, L1\<lparr>loader_console := loader_console L1 @ [CreationFailed name]\<rparr>)
              | Truthy i \<Rightarrow>
                  (let L2 = L1\<lparr>modules := AList.update name (m\<lparr>inst := Some i\<rparr>) (modules L1),
                                initializedModules := insert name (initializedModules L1)\<rparr>
                   in if init_method i = InitThrows
                      then (False, L2\<lparr>loader_console := loader_console L2 @ [InitException name ''init'']\<rparr>)
                      else (True, L2))))"

text \<open>
  \<open>initModule(name)\<close> and the body of its \<open>deps.forEach\<close>. The recursion follows the
  dependency lists and has no guard against a cycle, so it need not return: the first
  argument bounds the depth of the recursion, and \<open>None\<close> is a call that went deeper.
\<close>

fun initModule ::
    "nat \<Rightarrow> (nat \<Rightarrow> module_instance option list \<Rightarrow> fresult) \<Rightarrow> string \<Rightarrow> loader \<Rightarrow> (bool \<times> loader) option"
  and initDeps ::
    "nat \<Rightarrow> (nat \<Rightarrow> module_instance option list \<Rightarrow> fresult) \<Rightarrow> string list \<Rightarrow> loader \<Rightarrow> loader option"
where
  "initModule 0 env name L = None"
| "initModule (Suc k) env name L =
     (if name \<in> initializedModules L then Some (True, L)
      else case map_of (modules L) name of
        None \<Rightarrow> Some (False, L\<lparr>loader_console := loader_console L @ [CannotInit name]\<rparr>)
      | Some m \<Rightarrow>
          (case initDeps k env (deps m) L of
             None \<Rightarrow> None
           | Some L1 \<Rightarrow> Some (construct env name (deps m) L1)))"
| "initDeps k env [] L = Some L"
| "initDeps k env (dep # rest) L =
     (case initModule k env dep L of
        None \<Rightarrow> None
      | Some (ok, L1) \<Rightarrow>
          initDeps k env rest
            (if ok then L1 else L1\<lparr>loader_console := loader_console L1 @ [DependencyFailed dep]\<rparr>))"

text \<open>
  Vocabulary for statements about the loader: the dependency relation that the registered
  entries declare, and the dependencies one name declares.
\<close>

definition deps_of :: "(string \<times> module_entry) list \<Rightarrow> string \<Rightarrow> string set" where
  "deps_of ms a = (case map_of ms a of None \<Rightarrow> {} | Some m \<Rightarrow> set (deps m))"

definition dep_rel :: "(string \<times> module_entry) list \<Rightarrow> (string \<times> string) set" where
  "dep_rel ms = {(a, b). b \<in> deps_of ms a}"



section \<open>State store (StateManagerModule)\<close>

text \<open>
  Values are what JSON text can carry, with integers for the numbers. An object is an
  association list in insertion order with one entry per key.
\<close>

datatype json =
  JNull | JBool bool | JNum int | JStr string | JArr "json list" | JObj "(string \<times> json) list"

text \<open>
  The text that \<open>JSON.stringify\<close> writes and \<open>JSON.parse\<close> reads is kept up to the value it
  denotes: a text is either the serialization of a value or not JSON at all, on which
  \<open>JSON.parse\<close> throws.
\<close>

datatype jsontext = Serialized json | Malformed

definition stringify :: "json \<Rightarrow> jsontext" where
  "stringify v = Serialized v"

definition parse :: "jsontext \<Rightarrow> json option" where
  "parse t = (case t of Serialized v \<Rightarrow> Some v | Malformed \<Rightarrow> None)"

text \<open>\<open>v\<close> as a condition, and \<open>typeof v === 'object'\<close> (which holds of \<open>null\<close>).\<close>

definition truthy :: "json \<Rightarrow> bool" where
  "truthy v = (case v of JNull \<Rightarrow> False | JBool b \<Rightarrow> b | JNum n \<Rightarrow> n \<noteq> 0 | JStr s \<Rightarrow> s \<noteq> [] | _ \<Rightarrow> True)"

definition is_object :: "json \<Rightarrow> bool" where
  "is_object v = (case v of JNull \<Rightarrow> True | JArr _ \<Rightarrow> True | JObj _ \<Rightarrow> True | _ \<Rightarrow> False)"

text \<open>
  \<open>{ ...a, ...b }\<close>: the own enumerable properties of a value (the indices, for an array),
  and the object that assigns the entries of \<open>b\<close> onto a copy of \<open>a\<close> in order.
\<close>

definition own_entries :: "json \<Rightarrow> (string \<times> json) list" where
  "own_entries v =
     (case v of JObj kvs \<Rightarrow> kvs
              | JArr vs \<Rightarrow> zip (map digits [0..<length vs]) vs
              | _ \<Rightarrow> [])"

definition spread :: "(string \<times> json) list \<Rightarrow> (string \<times> json) list \<Rightarrow> (string \<times> json) list" where
  "spread a b = foldl (\<lambda>acc kv. AList.update (fst kv) (snd kv) acc) a b"

definition DEFAULT_STATE :: "(string \<times> json) list" where
  "DEFAULT_STATE =
     [(''nameVisibility'', JBool False), (''immersiveMode'', JBool False),
      (''gradingMode'', JBool False), (''footerHidden'', JBool False),
      (''statsImmersive'', JBool False), (''statsSelectedTasks'', JArr []),
      (''modalStack'', JArr [])]"

text \<open>
  A per-key listener is called with \<open>(newValue, oldValue)\<close>, \<open>None\<close> for \<open>undefined\<close>; a
  \<open>'*'\<close> listener with \<open>(_state, oldState)\<close>.
\<close>

datatype sargs =
    KeyChange "json option" "json option"
  | WholeState "(string \<times> json) list" "(string \<times> json) list"

datatype storelog = ListenerFailed string | WildcardListenerFailed string | ImportFailed

text \<open>
  \<open>state\<close> is \<open>_state\<close> (\<open>None\<close> for \<open>null\<close>), \<open>key_listeners\<close> is \<open>_listeners\<close>, a \<open>Map\<close>
  from a key to a \<open>Map\<close> from listener id to callback, both in insertion order.
  \<open>persisted\<close> is what \<open>storageService.get(STATE_KEY)\<close> answers: the value parsed from
  local storage, or \<open>None\<close> for \<open>undefined\<close>; \<open>storageService.set\<close> is taken to succeed.
\<close>

record store =
  state :: "(string \<times> json) list option"
  key_listeners :: "(string \<times> (string \<times> nat) list) list"
  persisted :: "json option"
  store_console :: "storelog list"
  notified :: "(nat \<times> sargs) list"

definition loadFromStorage :: "store \<Rightarrow> store" where
  "loadFromStorage s =
     (case persisted s of
        None \<Rightarrow> s\<lparr>state := Some (spread [] DEFAULT_STATE)\<rparr>
      | Some stored \<Rightarrow>
          (if truthy stored \<and> is_object stored
           then s\<lparr>state := Some (spread (spread [] DEFAULT_STATE) (own_entries stored))\<rparr>
           else s\<lparr>state := Some (spread [] DEFAULT_STATE)\<rparr>))"

definition saveToStorage :: "store \<Rightarrow> store" where
  "saveToStorage s = (case state s of None \<Rightarrow> s | Some st \<Rightarrow> s\<lparr>persisted := Some (JObj st)\<rparr>)"

text \<open>\<open>if (!_state) _loadFromStorage()\<close>, and \<open>_state\<close> once it is an object.\<close>

definition ensure_loaded :: "store \<Rightarrow> store" where
  "ensure_loaded s = (if state s = None then loadFromStorage s else s)"

definition current :: "store \<Rightarrow> (string \<times> json) list" where
  "current s = (case state s of None \<Rightarrow> [] | Some st \<Rightarrow> st)"

definition getState :: "store \<Rightarrow> (string \<times> json) list \<times> store" where
  "getState s = (let s1 = ensure_loaded s in (spread [] (current s1), s1))"

text \<open>
  \<open>_notifyListeners(updates, oldState)\<close>: the loop over the callbacks of one key, each in
  its own \<open>try\<close>; the loop \<open>for (const key in updates)\<close>; and the \<open>'*'\<close> listeners last.
\<close>

fun call_each ::
  "(nat \<Rightarrow> sargs \<Rightarrow> unit outcome) \<Rightarrow> (string \<Rightarrow> storelog) \<Rightarrow> sargs \<Rightarrow> nat list \<Rightarrow> store \<Rightarrow> store" where
  "call_each env mk args [] s = s"
| "call_each env mk args (cb # cbs) s =
     (let s1 = s\<lparr>notified := notified s @ [(cb, args)]\<rparr>;
          s2 = (case env cb args of
                  Returns _ \<Rightarrow> s1
                | Throws e \<Rightarrow> s1\<lparr>store_console := store_console s1 @ [mk e]\<rparr>)
      in call_each env mk args cbs s2)"

fun notify_keys ::
  "(nat \<Rightarrow> sargs \<Rightarrow> unit outcome) \<Rightarrow> string list \<Rightarrow> (string \<times> json) list \<Rightarrow> store \<Rightarrow> store" where
  "notify_keys env [] oldState s = s"
| "notify_keys env (k # ks) oldState s =
     notify_keys env ks oldState
       (case map_of (key_listeners s) k of
          None \<Rightarrow> s
        | Some ls \<Rightarrow>
            call_each env ListenerFailed
              (KeyChange (map_of (current s) k) (map_of oldState k)) (map snd ls) s)"

definition notifyListeners ::
  "(nat \<Rightarrow> sargs \<Rightarrow> unit outcome) \<Rightarrow> (string \<times> json) list \<Rightarrow> (string \<times> json) list \<Rightarrow> store \<Rightarrow> store" where
  "notifyListeners env updates oldState s =
     (let s1 = notify_keys env (map fst updates) oldState s
      in case map_of (key_listeners s1) ''*'' of
           None \<Rightarrow> s1
         | Some ls \<Rightarrow>
             call_each env WildcardListenerFailed (WholeState (current s1) oldState) (map snd ls) s1)"

definition setState ::
  "(nat \<Rightarrow> sargs \<Rightarrow> unit outcome) \<Rightarrow> (string \<times> json) list \<Rightarrow> store \<Rightarrow> bool \<times> store" where
  "setState env updates s =
     (let s1 = ensure_loaded s;
          oldState = spread [] (current s1);
          s2 = s1\<lparr>state := Some (spread (spread [] (current s1)) updates)\<rparr>;
          s3 = saveToStorage s2
      in (True, notifyListeners env updates oldState s3))"

text \<open>
  \<open>addListener(key, callback)\<close>. The id is made from the clock and a random number, so it
  is an argument here.
\<close>

definition addListener :: "string \<Rightarrow> nat option \<Rightarrow> string \<Rightarrow> store \<Rightarrow> string option \<times> store" where
  "addListener key cb newid s =
     (case cb of
        None \<Rightarrow> (None, s)
      | Some f \<Rightarrow>
          (let inner = (case map_of (key_listeners s) key of None \<Rightarrow> [] | Some ls \<Rightarrow> ls)
           in (Some newid,
               s\<lparr>key_listeners := AList.update key (AList.update newid f inner) (key_listeners s)\<rparr>)))"

text \<open>\<open>exportData\<close> serializes \<open>_state\<close> as it stands; only \<open>importData\<close> looks at the result.\<close>

definition exportData :: "store \<Rightarrow> jsontext" where
  "exportData s = stringify (case state s of None \<Rightarrow> JNull | Some st \<Rightarrow> JObj st)"

definition importData :: "(nat \<Rightarrow> sargs \<Rightarrow> unit outcome) \<Rightarrow> jsontext \<Rightarrow> store \<Rightarrow> bool \<times> store" where
  "importData env jsonStr s =
     (case parse jsonStr of
        None \<Rightarrow> (False, s\<lparr>store_console := store_console s @ [ImportFailed]\<rparr>)
      | Some parsed \<Rightarrow>
          (if truthy parsed \<and> is_object parsed then
             (let s1 = s\<lparr>state := Some (spread (spread [] DEFAULT_STATE) (own_entries parsed))\<rparr>;
                  s2 = saveToStorage s1
              in (True, notifyListeners env (current s2) [] s2))
           else (False, s)))"

definition store0 :: "json option \<Rightarrow> store" where
  "store0 stored = \<lparr>state = None, key_listeners = [], persisted = stored, store_console = [], notified = []\<rparr>"

definition init :: "store \<Rightarrow> bool \<times> store" where
  "init s = (True, loadFromStorage s)"

definition reset :: "(nat \<Rightarrow> sargs \<Rightarrow> unit outcome) \<Rightarrow> store \<Rightarrow> bool \<times> store" where
  "reset env s =
     (let s1 = saveToStorage (s\<lparr>state := Some (spread [] DEFAULT_STATE)\<rparr>)
      in (True, notifyListeners env (current s1) [] s1))"


section \<open>Registries used as examples\<close>

text \<open>
  A diamond (\<open>A\<close> needs \<open>B\<close> and \<open>C\<close>, which both need \<open>D\<close>), two modules that need each
  other, and factories that return a fresh instance without an \<open>init\<close> member.
\<close>

definition diamond :: loader where
  "diamond =
     register ''D'' (Some 4) None
       (register ''C'' (Some 3) (Some [''D''])
         (register ''B'' (Some 2) (Some [''D''])
           (register ''A'' (Some 1) (Some [''B'', ''C'']) loader0)))"

definition mutual :: loader where
  "mutual =
     register ''B'' (Some 2) (Some [''A''])
       (register ''A'' (Some 1) (Some [''B'']) loader0)"

definition plain_factories :: "nat \<Rightarrow> module_instance option list \<Rightarrow> fresult" where
  "plain_factories f args = Truthy (Instance f NoInit)"


section \<open>Notions used in the proofs\<close>

text \<open>
  A set of module names that holds the declared dependencies of its members, with a
  ranking that falls along each of them; what
  \<open>initModule\<close> never changes of an entry; and the frame of an initialization that stays
  below rank \<open>r\<close>: entries and initialization of names of rank \<open>r\<close> or more are untouched,
  and only factories of names below \<open>r\<close> were called.
\<close>

definition ranked :: "string set \<Rightarrow> (string \<Rightarrow> nat) \<Rightarrow> loader \<Rightarrow> bool" where
  "ranked S rank L =
     (\<forall>m d. m \<in> S \<longrightarrow> d \<in> deps_of (modules L) m \<longrightarrow> d \<in> S \<and> rank d < rank m)"

definition skeleton :: "loader \<Rightarrow> string \<Rightarrow> (nat \<times> string list) option" where
  "skeleton L x = map_option (\<lambda>m. (factory m, deps m)) (map_of (modules L) x)"

definition below :: "(string \<Rightarrow> nat) \<Rightarrow> nat \<Rightarrow> loader \<Rightarrow> loader \<Rightarrow> bool" where
  "below rank r L L1 =
     (skeleton L1 = skeleton L \<and>
      (\<forall>x. r \<le> rank x \<longrightarrow>
           map_of (modules L1) x = map_of (modules L) x \<and>
           (x \<in> initializedModules L1) = (x \<in> initializedModules L)) \<and>
      (\<exists>new. factory_calls L1 = factory_calls L @ new \<and> (\<forall>c \<in> set new. rank (fst c) < r)))"

text \<open>
  What a call of \<open>resolveDependencies\<close> or of its loop has done when it returns, started
  from the names \<open>S\<close> with \<open>V\<close> visited: the visited set has grown to \<open>V'\<close> by registered
  names reachable from \<open>S\<close>, the result lists \<open>base\<close> and the dependencies of every newly
  visited name, and every registered dependency of a newly visited name is visited.
\<close>

definition dfs_post ::
  "(string \<times> module_entry) list \<Rightarrow> string set \<Rightarrow> string set \<Rightarrow> string set \<Rightarrow>
     string list \<Rightarrow> string set \<Rightarrow> bool" where
  "dfs_post ms S base V res V' =
     (V \<subseteq> V' \<and>
      V' - V \<subseteq> {x. \<exists>s \<in> S. (s, x) \<in> (dep_rel ms)\<^sup>*} \<inter> dom (map_of ms) \<and>
      set res = base \<union> \<Union> (deps_of ms ` (V' - V)) \<and>
      (\<forall>x \<in> V' - V. \<forall>d \<in> deps_of ms x. d \<in> dom (map_of ms) \<longrightarrow> d \<in> V') \<and>
      (\<forall>s \<in> S. s \<in> dom (map_of ms) \<longrightarrow> s \<in> V'))"

text \<open>Every name of the list has its declared dependencies in \<open>A\<close> or earlier in the list.\<close>

primrec deps_before :: "(string \<times> module_entry) list \<Rightarrow> string set \<Rightarrow> string list \<Rightarrow> bool" where
  "deps_before ms A [] = True"
| "deps_before ms A (x # xs) = (deps_of ms x \<subseteq> A \<and> deps_before ms (insert x A) xs)"



section \<open>Properties of the event bus\<close>

subsection \<open>Dispatch\<close>

lemma off_invoked [simp]: "invoked (snd (off event t b)) = invoked b"
  by (simp add: off_def Let_def)

lemma off_console [simp]: "console (snd (off event t b)) = console b"
  by (simp add: off_def Let_def)

lemma dispatch_one_trace:
  "invoked (snd (dispatch_one env event payload l st)) =
     invoked (snd st) @ [(entry l, call_args event payload l)]"
  by (simp add: dispatch_one_def Let_def call_args_def split: outcome.splits)

lemma dispatch_one_results:
  "fst (dispatch_one env event payload l st) =
     fst st @ returned [env (callback (entry l)) (call_args event payload l)]"
  by (simp add: dispatch_one_def Let_def call_args_def split: outcome.splits)

lemma dispatch_one_console:
  "console (snd (dispatch_one env event payload l st)) =
     console (snd st) @
       map (ListenerError event) (thrown [env (callback (entry l)) (call_args event payload l)])"
  by (simp add: dispatch_one_def Let_def call_args_def split: outcome.splits)

lemma dispatch_all:
  "invoked (snd (dispatch env event payload ls st)) =
      invoked (snd st) @ map (\<lambda>l. (entry l, call_args event payload l)) ls
   \<and> fst (dispatch env event payload ls st) =
      fst st @ returned (map (\<lambda>l. env (callback (entry l)) (call_args event payload l)) ls)
   \<and> console (snd (dispatch env event payload ls st)) =
      console (snd st) @ map (ListenerError event)
        (thrown (map (\<lambda>l. env (callback (entry l)) (call_args event payload l)) ls))"
proof (induction ls arbitrary: st)
  case Nil
  show ?case by simp
next
  case (Cons l ls)
  show ?case
    by (simp add: Cons.IH dispatch_one_trace dispatch_one_results dispatch_one_console
          split: outcome.splits)
qed

text \<open>
  Claim C6. Whatever the callbacks do, \<open>emit\<close> calls every entry of its snapshot, from the
  last to the first, each with the arguments of its kind; a callback that throws adds one
  line to the console and nothing to the results, and the entries after it are called all
  the same. \<open>emit\<close> returns the values of the callbacks that returned, in call order.
\<close>

theorem emit_isolates_listener_faults:
  "invoked (snd (emit env event payload b)) =
      invoked b @ map (\<lambda>l. (entry l, call_args event payload l)) (rev (allListeners b event))
   \<and> fst (emit env event payload b) =
      returned (map (\<lambda>l. env (callback (entry l)) (call_args event payload l))
                  (rev (allListeners b event)))
   \<and> console (snd (emit env event payload b)) =
      console b @ map (ListenerError event)
        (thrown (map (\<lambda>l. env (callback (entry l)) (call_args event payload l))
                   (rev (allListeners b event))))"
  unfolding emit_def using dispatch_all [of env event payload "rev (allListeners b event)" "([], b)"]
  by simp

subsection \<open>Priorities\<close>

lemma on_two:
  "snd (on ''x'' (Some l2) 10 (snd (on ''x'' (Some l1) 5 (bus0 :: 'p bus)))) =
     (bus0 :: 'p bus)\<lparr>listenerIdCounter := 2,
        listeners := [''x'' \<mapsto> [\<lparr>lid = ''listener_'' @ digits 2, callback = l2, priority = 10\<rparr>,
                                \<lparr>lid = ''listener_'' @ digits 1, callback = l1, priority = 5\<rparr>]]\<rparr>"
  by (simp add: on_def bus0_def Let_def get_or_empty_def by_priority_def numeral_2_eq_2)

text \<open>
  Claim C1. On the fresh bus, after \<open>on('x', L1, 5)\<close> and \<open>on('x', L2, 10)\<close>, the array kept
  for \<open>'x'\<close> is sorted with \<open>L2\<close> first, and \<open>emit('x', payload)\<close> walks it backwards: it
  calls \<open>L1\<close> (priority 5) first and \<open>L2\<close> (priority 10) second. The result holds what each
  of them returned, so the value of \<open>L2\<close> is there also when \<open>L1\<close> throws.
\<close>

theorem emit_runs_lower_priority_first:
  "let b1 = snd (on ''x'' (Some l1) 5 (bus0 :: 'p bus));
       b2 = snd (on ''x'' (Some l2) 10 b1);
       (results, b3) = emit env ''x'' payload b2
   in map (\<lambda>(l, a). (callback l, priority l, a)) (invoked b3) =
        [(l1, 5, Plain payload), (l2, 10, Plain payload)]
      \<and> results = returned [env l1 (Plain payload), env l2 (Plain payload)]"
  apply (simp only: Let_def on_two)
  apply (simp add: emit_def allListeners_def get_or_empty_def bus0_def dispatch_one_def Let_def
      off_def split_beta split: outcome.splits)
  done

subsection \<open>Once listeners\<close>

text \<open>
  Claim C7. On a bus with no listeners, after \<open>once(event, cb)\<close> for an event other than
  \<open>'*'\<close>, the first \<open>emit(event)\<close> calls \<open>cb\<close> once, with the payload, and leaves no listener
  on the bus; the second \<open>emit(event)\<close> calls nothing and returns no result.
\<close>

theorem once_delivers_once:
  assumes "event \<noteq> ''*''"
  shows
  "let b0 = \<lparr>listeners = Map.empty, onceListeners = Map.empty, listenerIdCounter = n,
              console = c, invoked = tr\<rparr>;
       (i, b1) = once event (Some cb) prio b0;
       (r1, b2) = emit env event p1 b1;
       (r2, b3) = emit env event p2 b2
   in map (\<lambda>(l, a). (lid l, callback l, a)) (invoked b2) =
        map (\<lambda>(l, a). (lid l, callback l, a)) tr @ [(the i, cb, Plain p1)]
      \<and> getListenerCount b2 event = 0
      \<and> onceListeners b2 = Map.empty \<and> listeners b2 = Map.empty
      \<and> invoked b3 = invoked b2 \<and> r2 = []"
  using assms
  by (simp add: once_def emit_def allListeners_def get_or_empty_def dispatch_one_def Let_def
      off_def split_beta by_priority_def splice_out_def matches_def getListenerCount_def
      split: outcome.splits)

theorem once_delivers_once_witness:
  "let b0 = \<lparr>listeners = Map.empty, onceListeners = Map.empty, listenerIdCounter = 0,
              console = [], invoked = []\<rparr>;
       (i, b1) = once ''x'' (Some 7) 0 b0;
       (r1, b2) = emit (\<lambda>f a. Returns (0::nat)) ''x'' (1::nat) b1;
       (r2, b3) = emit (\<lambda>f a. Returns (0::nat)) ''x'' (2::nat) b2
   in map (\<lambda>(l, a). (lid l, callback l, a)) (invoked b2) = [(the i, 7, Plain 1)]
      \<and> getListenerCount b2 ''x'' = 0
      \<and> invoked b3 = invoked b2 \<and> r2 = []"
  using once_delivers_once [of "''x''" 0 "[]" "[]" 7 0 "\<lambda>f a. Returns (0::nat)" "1::nat" "2::nat"]
  by (simp add: Let_def split_beta)

subsection \<open>Listener ids\<close>

lemma digit_inj:
  "a < 10 \<Longrightarrow> b < 10 \<Longrightarrow> ''0123456789'' ! a = ''0123456789'' ! b \<Longrightarrow> a = b"
proof -
  assume a: "a < 10" and b: "b < 10" and e: "''0123456789'' ! a = ''0123456789'' ! b"
  have d: "distinct ''0123456789''" by simp
  have l: "length ''0123456789'' = 10" by simp
  from d a b e l show "a = b" by (metis nth_eq_iff_index_eq)
qed

lemma digits_not_Nil: "digits n \<noteq> []"
  by (subst digits.simps) simp

lemma digits_inj: "digits n = digits m \<Longrightarrow> n = m"
proof (induction n arbitrary: m rule: digits.induct)
  case (1 n)
  show ?case
  proof (cases "n < 10")
    case True
    note n = this
    show ?thesis
    proof (cases "m < 10")
      case True
      from "1.prems" n True have "''0123456789'' ! n = ''0123456789'' ! m"
        by (subst (asm) digits.simps, subst (asm) (2) digits.simps) simp
      with n True show ?thesis by (rule digit_inj)
    next
      case False
      from "1.prems" n False have "[''0123456789'' ! n] = digits (m div 10) @ [''0123456789'' ! (m mod 10)]"
        by (subst (asm) digits.simps, subst (asm) (2) digits.simps) simp
      then have "digits (m div 10) = []" by simp
      with digits_not_Nil show ?thesis by blast
    qed
  next
    case False
    note n = this
    show ?thesis
    proof (cases "m < 10")
      case True
      from "1.prems" n True have "digits (n div 10) @ [''0123456789'' ! (n mod 10)] = [''0123456789'' ! m]"
        by (subst (asm) digits.simps, subst (asm) (2) digits.simps) simp
      then have "digits (n div 10) = []" by simp
      with digits_not_Nil show ?thesis by blast
    next
      case False
      from "1.prems" n False
      have "digits (n div 10) @ [''0123456789'' ! (n mod 10)] = digits (m div 10) @ [''0123456789'' ! (m mod 10)]"
        by (subst (asm) digits.simps, subst (asm) (2) digits.simps) simp
      then have a: "digits (n div 10) = digits (m div 10)"
        and b: "''0123456789'' ! (n mod 10) = ''0123456789'' ! (m mod 10)" by simp_all
      from "1.IH" [OF n a] have c: "n div 10 = m div 10" .
      have "n mod 10 = m mod 10" by (rule digit_inj [OF _ _ b]) simp_all
      with c show ?thesis by (metis div_mult_mod_eq)
    qed
  qed
qed

lemma issued_mono: "n \<le> m \<Longrightarrow> issued n \<subseteq> issued m"
  using order_trans by (fastforce simp: issued_def)

lemma fresh_listener: "''listener_'' @ digits (Suc n) \<notin> issued n"
  by (auto simp: issued_def dest: digits_inj)

lemma fresh_once: "''once_'' @ digits (Suc n) \<notin> issued n"
  by (auto simp: issued_def dest: digits_inj)

lemma new_listener_issued: "''listener_'' @ digits (Suc n) \<in> issued (Suc n)"
  by (auto simp: issued_def)

lemma new_once_issued: "''once_'' @ digits (Suc n) \<in> issued (Suc n)"
  by (auto simp: issued_def)

lemma by_priority_mset [simp]: "mset (by_priority ls) = mset ls"
  by (simp add: by_priority_def)

lemma by_priority_set [simp]: "set (by_priority ls) = set ls"
  by (simp add: by_priority_def)

lemma distinct_ids_by_priority: "distinct (map lid (by_priority ls)) = distinct (map lid ls)"
  by (rule mset_eq_imp_distinct_iff) simp

lemma bus0_inv: "bus_inv bus0"
  by (simp add: bus_inv_def ids_of_def bus0_def get_or_empty_def)

lemma on_inv: "bus_inv b \<Longrightarrow> bus_inv (snd (on e cb p b))"
proof (cases cb)
  case None
  assume "bus_inv b"
  with None show ?thesis by (simp add: on_def bus_inv_def ids_of_def)
next
  case (Some f)
  assume inv: "bus_inv b"
  let ?n = "listenerIdCounter b"
  let ?i = "''listener_'' @ digits (Suc ?n)"
  show ?thesis
    unfolding bus_inv_def
  proof (intro allI)
    fix e'
    from inv have d: "distinct (ids_of b e')" and s: "set (ids_of b e') \<subseteq> issued ?n"
      by (simp_all add: bus_inv_def)
    from s fresh_listener have nin: "?i \<notin> set (ids_of b e')" by blast
    from s issued_mono [of ?n "Suc ?n"] have s': "set (ids_of b e') \<subseteq> issued (Suc ?n)" by auto
    show "distinct (ids_of (snd (on e cb p b)) e') \<and>
          set (ids_of (snd (on e cb p b)) e') \<subseteq> issued (listenerIdCounter (snd (on e cb p b)))"
    proof (cases "e' = e")
      case False
      with Some d s' show ?thesis by (simp add: on_def Let_def ids_of_def get_or_empty_def)
    next
      case True
      with Some d s' nin new_listener_issued [of ?n] show ?thesis
        by (auto simp: on_def Let_def ids_of_def get_or_empty_def distinct_ids_by_priority
            split: option.splits)
    qed
  qed
qed


lemma once_inv: "bus_inv b \<Longrightarrow> bus_inv (snd (once e cb p b))"
proof (cases cb)
  case None
  assume "bus_inv b"
  with None show ?thesis by (simp add: once_def bus_inv_def ids_of_def)
next
  case (Some f)
  assume inv: "bus_inv b"
  let ?n = "listenerIdCounter b"
  let ?i = "''once_'' @ digits (Suc ?n)"
  show ?thesis
    unfolding bus_inv_def
  proof (intro allI)
    fix e'
    from inv have d: "distinct (ids_of b e')" and s: "set (ids_of b e') \<subseteq> issued ?n"
      by (simp_all add: bus_inv_def)
    from s fresh_once have nin: "?i \<notin> set (ids_of b e')" by blast
    from s issued_mono [of ?n "Suc ?n"] have s': "set (ids_of b e') \<subseteq> issued (Suc ?n)" by auto
    show "distinct (ids_of (snd (once e cb p b)) e') \<and>
          set (ids_of (snd (once e cb p b)) e') \<subseteq> issued (listenerIdCounter (snd (once e cb p b)))"
    proof (cases "e' = e")
      case False
      with Some d s' show ?thesis by (simp add: once_def Let_def ids_of_def get_or_empty_def)
    next
      case True
      with Some d s' nin new_once_issued [of ?n] show ?thesis
        by (auto simp: once_def Let_def ids_of_def get_or_empty_def distinct_ids_by_priority
            split: option.splits)
    qed
  qed
qed

lemma get_splice_out:
  "get_or_empty (splice_out t e m) e' =
     (if e' = e then filter (\<lambda>l. \<not> matches t l) (get_or_empty m e) else get_or_empty m e')"
  by (simp add: splice_out_def get_or_empty_def Let_def)

lemma ids_of_off:
  "t \<noteq> Undefined \<Longrightarrow> ids_of (snd (off e t b)) e' =
     (if e' = e then map lid (filter (\<lambda>l. \<not> matches t l)
                        (get_or_empty (listeners b) e @ get_or_empty (onceListeners b) e))
      else ids_of b e')"
  by (simp add: off_def Let_def ids_of_def get_splice_out)

lemma off_counter [simp]: "listenerIdCounter (snd (off e t b)) = listenerIdCounter b"
  by (simp add: off_def Let_def)

lemma off_inv: "bus_inv b \<Longrightarrow> bus_inv (snd (off e t b))"
proof (cases "t = Undefined")
  case True
  assume "bus_inv b"
  then show ?thesis using True
    by (auto simp: bus_inv_def off_def ids_of_def get_or_empty_def)
next
  case False
  assume inv: "bus_inv b"
  show ?thesis
    unfolding bus_inv_def
  proof (intro allI)
    fix e'
    from inv have d: "distinct (ids_of b e')" and s: "set (ids_of b e') \<subseteq> issued (listenerIdCounter b)"
      by (simp_all add: bus_inv_def)
    from d s show "distinct (ids_of (snd (off e t b)) e') \<and>
          set (ids_of (snd (off e t b)) e') \<subseteq> issued (listenerIdCounter (snd (off e t b)))"
      unfolding ids_of_off [OF False]
      by (auto simp: ids_of_def distinct_map_filter)
  qed
qed

lemma dispatch_one_inv: "bus_inv (snd st) \<Longrightarrow> bus_inv (snd (dispatch_one env e d l st))"
proof -
  assume inv: "bus_inv (snd st)"
  have upd: "bus_inv (b\<lparr>invoked := x\<rparr>) = bus_inv b" "bus_inv (b\<lparr>console := y\<rparr>) = bus_inv b"
    for b :: "'a bus" and x y
    by (simp_all add: bus_inv_def ids_of_def)
  from inv show ?thesis
    by (simp add: dispatch_one_def Let_def upd off_inv split: outcome.splits)
qed

lemma dispatch_one_counter:
  "listenerIdCounter (snd (dispatch_one env e d l st)) = listenerIdCounter (snd st)"
  by (simp add: dispatch_one_def Let_def split: outcome.splits)

lemma dispatch_inv:
  "bus_inv (snd st) \<Longrightarrow> bus_inv (snd (dispatch env e d ls st)) \<and>
     listenerIdCounter (snd (dispatch env e d ls st)) = listenerIdCounter (snd st)"
  by (induction ls arbitrary: st) (simp_all add: dispatch_one_inv dispatch_one_counter)

lemma emit_inv: "bus_inv b \<Longrightarrow> bus_inv (snd (emit env e d b))"
  unfolding emit_def by (rule dispatch_inv [THEN conjunct1]) simp

lemma emit_counter [simp]: "listenerIdCounter (snd (emit env e d b)) = listenerIdCounter b"
proof -
  have "listenerIdCounter (snd (dispatch env e d ls st)) = listenerIdCounter (snd st)" for ls st
    by (induction ls arbitrary: st) (simp_all add: dispatch_one_counter)
  then show ?thesis by (simp add: emit_def)
qed

lemma apply_op_inv: "bus_inv b \<Longrightarrow> bus_inv (snd (apply_op env x b))"
  by (cases x) (simp_all add: on_inv once_inv off_inv emit_inv)

lemma on_id:
  "on e cb p b = (Some i, b') \<Longrightarrow>
     i = ''listener_'' @ digits (Suc (listenerIdCounter b)) \<and>
     listenerIdCounter b' = Suc (listenerIdCounter b)"
  by (auto simp: on_def Let_def split: option.splits)

lemma once_id:
  "once e cb p b = (Some i, b') \<Longrightarrow>
     i = ''once_'' @ digits (Suc (listenerIdCounter b)) \<and>
     listenerIdCounter b' = Suc (listenerIdCounter b)"
  by (auto simp: once_def Let_def split: option.splits)

lemma apply_op_id:
  "apply_op env x b = (Some i, b') \<Longrightarrow>
     i \<notin> issued (listenerIdCounter b) \<and> i \<in> issued (listenerIdCounter b')"
proof (cases x)
  case (On e cb p)
  assume "apply_op env x b = (Some i, b')"
  with On have "on e cb p b = (Some i, b')" by simp
  from on_id [OF this] fresh_listener new_listener_issued show ?thesis by metis
next
  case (Once e cb p)
  assume "apply_op env x b = (Some i, b')"
  with Once have "once e cb p b = (Some i, b')" by simp
  from once_id [OF this] fresh_once new_once_issued show ?thesis by metis
next
  case (Off e t)
  assume "apply_op env x b = (Some i, b')"
  with Off show ?thesis by simp
next
  case (Emit e d)
  assume "apply_op env x b = (Some i, b')"
  with Emit show ?thesis by simp
qed

lemma apply_op_counter: "listenerIdCounter b \<le> listenerIdCounter (snd (apply_op env x b))"
  by (cases x) (auto simp: on_def once_def Let_def split: option.splits)

lemma run_inv:
  "bus_inv b \<Longrightarrow>
     bus_inv (snd (run env ops b)) \<and> distinct (fst (run env ops b)) \<and>
     set (fst (run env ops b)) \<inter> issued (listenerIdCounter b) = {} \<and>
     set (fst (run env ops b)) \<subseteq> issued (listenerIdCounter (snd (run env ops b))) \<and>
     listenerIdCounter b \<le> listenerIdCounter (snd (run env ops b))"
proof (induction ops arbitrary: b)
  case Nil
  then show ?case by simp
next
  case (Cons x xs)
  let ?r = "apply_op env x b"
  let ?b1 = "snd ?r"
  from Cons.prems have inv1: "bus_inv ?b1" by (rule apply_op_inv)
  note ih = Cons.IH [OF inv1]
  have le: "listenerIdCounter b \<le> listenerIdCounter ?b1" by (rule apply_op_counter)
  then have sub: "issued (listenerIdCounter b) \<subseteq> issued (listenerIdCounter ?b1)" by (rule issued_mono)
  show ?case
  proof (cases "fst ?r")
    case None
    with ih le sub show ?thesis by (auto simp: Let_def)
  next
    case (Some i)
    then have "apply_op env x b = (Some i, ?b1)" by (metis prod.collapse)
    then have i: "i \<notin> issued (listenerIdCounter b)" "i \<in> issued (listenerIdCounter ?b1)"
      by (auto dest: apply_op_id)
    from ih have "listenerIdCounter ?b1 \<le> listenerIdCounter (snd (run env xs ?b1))" by simp
    then have "issued (listenerIdCounter ?b1) \<subseteq> issued (listenerIdCounter (snd (run env xs ?b1)))"
      by (rule issued_mono)
    with i have up: "i \<in> issued (listenerIdCounter (snd (run env xs ?b1)))" by blast
    from Some ih le sub i up show ?thesis by (auto simp: Let_def)
  qed
qed

lemma filter_key_le_one: "distinct (map f xs) \<Longrightarrow> length (filter (\<lambda>x. f x = a) xs) \<le> 1"
  by (induction xs) (auto simp: image_iff filter_empty_conv)

lemma off_removes_at_most_one:
  assumes "bus_inv b"
  shows "getListenerCount b e \<le> Suc (getListenerCount (snd (off e (IdString i) b)) e)"
proof -
  let ?xs = "get_or_empty (listeners b) e @ get_or_empty (onceListeners b) e"
  from assms have "distinct (map lid ?xs)" by (simp add: bus_inv_def ids_of_def)
  then have one: "length (filter (\<lambda>l. lid l = i) ?xs) \<le> 1" by (rule filter_key_le_one)
  have "length ?xs = length (filter (\<lambda>l. lid l = i) ?xs) + length (filter (\<lambda>l. \<not> lid l = i) ?xs)"
    by (rule sum_length_filter_compl [symmetric])
  with one have "length ?xs \<le> Suc (length (filter (\<lambda>l. \<not> lid l = i) ?xs))" by simp
  then show ?thesis
    by (simp add: getListenerCount_def off_def Let_def get_splice_out matches_def)
qed

lemma off_other_events:
  "e' \<noteq> e \<Longrightarrow> t \<noteq> Undefined \<Longrightarrow>
     listeners (snd (off e t b)) e' = listeners b e' \<and>
     onceListeners (snd (off e t b)) e' = onceListeners b e'"
  by (simp add: off_def Let_def splice_out_def)

text \<open>
  Claim C10. Along any sequence of calls of \<open>on\<close>, \<open>once\<close>, \<open>off\<close> and \<open>emit\<close> on the fresh
  bus, the ids that \<open>on\<close> and \<open>once\<close> return are pairwise different. On the bus so reached,
  \<open>off(e, i)\<close> with a string \<open>i\<close> takes at most one entry away from the two arrays of \<open>e\<close>
  and leaves the arrays of every other event as they were.
\<close>

theorem listener_ids_unique:
  "distinct (fst (run env ops bus0)) \<and>
   (let b = snd (run env ops bus0); b' = snd (off e (IdString i) b)
    in getListenerCount b e \<le> Suc (getListenerCount b' e) \<and>
       (\<forall>e'. e' \<noteq> e \<longrightarrow>
          listeners b' e' = listeners b e' \<and> onceListeners b' e' = onceListeners b e'))"
  using run_inv [OF bus0_inv, of env ops]
  by (simp add: Let_def off_removes_at_most_one off_other_events)

theorem listener_ids_unique_witness:
  "distinct (fst (run (\<lambda>f a. Returns (0::nat))
       [On ''x'' (Some 1) 0, Once ''x'' (Some 2) 0, Emit ''x'' (0::nat), On ''y'' (Some 1) 5] bus0)) \<and>
   (let b = snd (run (\<lambda>f a. Returns (0::nat))
       [On ''x'' (Some 1) 0, Once ''x'' (Some 2) 0, Emit ''x'' (0::nat), On ''y'' (Some 1) 5] bus0);
        b' = snd (off ''x'' (IdString (''listener_'' @ digits 1)) b)
    in getListenerCount b ''x'' \<le> Suc (getListenerCount b' ''x'') \<and>
       listeners b' ''y'' = listeners b ''y'' \<and> onceListeners b' ''y'' = onceListeners b ''y'')"
proof -
  have ne: "''y'' \<noteq> ''x''" by simp
  note t = listener_ids_unique [of "\<lambda>f a. Returns (0::nat)"
      "[On ''x'' (Some 1) 0, Once ''x'' (Some 2) 0, Emit ''x'' (0::nat), On ''y'' (Some 1) 5]"
      "''x''" "''listener_'' @ digits 1", unfolded Let_def]
  note a = t [THEN conjunct1]
  note b = t [THEN conjunct2, THEN conjunct1]
  note c = t [THEN conjunct2, THEN conjunct2, THEN spec, THEN mp, OF ne]
  show ?thesis unfolding Let_def
    by (intro conjI) (rule a, rule b, rule c [THEN conjunct1], rule c [THEN conjunct2])
qed

section \<open>Properties of the module loader\<close>

subsection \<open>Initialization\<close>

lemma below_refl: "below rank r L L"
  by (simp add: below_def)

lemma below_trans: "below rank r L L1 \<Longrightarrow> below rank r L1 L2 \<Longrightarrow> below rank r L L2"
  unfolding below_def by (elim conjE exE) (intro conjI, simp, simp, fastforce)

lemma below_mono: "below rank r L L1 \<Longrightarrow> r \<le> r' \<Longrightarrow> below rank r' L L1"
  unfolding below_def by (elim conjE exE) (intro conjI, simp, simp, fastforce)

lemma below_console: "below rank r L (L\<lparr>loader_console := c\<rparr>)"
  by (simp add: below_def skeleton_def fun_eq_iff)

lemma ranked_skeleton: "skeleton L1 = skeleton L \<Longrightarrow> ranked S rank L1 = ranked S rank L"
proof -
  assume s: "skeleton L1 = skeleton L"
  have "deps_of (modules L1) m = deps_of (modules L) m" for m
    using fun_cong [OF s, of m]
    by (auto simp: skeleton_def deps_of_def split: option.splits)
  then show ?thesis by (simp add: ranked_def)
qed

lemma construct_below:
  "rank name < r \<Longrightarrow> below rank r L (snd (construct env name ds L))"
  by (auto simp: construct_def below_def skeleton_def Let_def update_conv' fun_eq_iff
      split: option.splits fresult.splits)

lemma init_below:
  "ranked S rank L \<Longrightarrow> name \<in> S \<Longrightarrow> rank name < r \<Longrightarrow> rank name < k \<Longrightarrow>
     \<exists>ok L1. initModule k env name L = Some (ok, L1) \<and> below rank r L L1"
  "ranked S rank L \<Longrightarrow> \<forall>d \<in> set ds. d \<in> S \<and> rank d < r \<and> rank d < k \<Longrightarrow>
     \<exists>L1. initDeps k env ds L = Some L1 \<and> below rank r L L1"
proof (induction k env name L and k env ds L arbitrary: r and r rule: initModule_initDeps.induct)
  case (1 env name L)
  then show ?case by simp
next
  case (2 k env name L)
  show ?case
  proof (cases "name \<in> initializedModules L")
    case True
    then show ?thesis by (auto simp: below_refl)
  next
    case False
    note ninit = this
    show ?thesis
    proof (cases "map_of (modules L) name")
      case None
      with ninit show ?thesis by (auto simp: below_console)
    next
      case (Some m)
      from Some "2.prems"(1,2) have dr: "\<forall>d \<in> set (deps m). d \<in> S \<and> rank d < rank name"
        by (auto simp: ranked_def deps_of_def)
      with "2.prems"(4) have "\<forall>d \<in> set (deps m). d \<in> S \<and> rank d < rank name \<and> rank d < k"
        by auto
      from "2.IH" [OF ninit Some "2.prems"(1) this]
      obtain L1 where L1: "initDeps k env (deps m) L = Some L1" "below rank (rank name) L L1"
        by blast
      from L1(2) "2.prems"(3) have b1: "below rank r L L1" by (simp add: below_mono)
      from "2.prems"(3)
      have "below rank r L1 (snd (construct env name (deps m) L1))" by (rule construct_below)
      with b1 have "below rank r L (snd (construct env name (deps m) L1))" by (rule below_trans)
      with ninit Some L1(1) show ?thesis
        by (cases "construct env name (deps m) L1") simp
    qed
  qed
next
  case (3 k env L)
  then show ?case by (simp add: below_refl)
next
  case (4 k env dep rest L)
  from "4.prems"(2) have d: "dep \<in> S" "rank dep < r" "rank dep < k" by simp_all
  from "4.IH"(1) [OF "4.prems"(1) d]
  obtain ok L1 where L1: "initModule k env dep L = Some (ok, L1)" "below rank r L L1" by blast
  let ?L1 = "if ok then L1 else L1\<lparr>loader_console := loader_console L1 @ [DependencyFailed dep]\<rparr>"
  have b1: "below rank r L ?L1"
    using L1(2) below_console [of rank r L1] by (auto intro: below_trans)
  then have "skeleton ?L1 = skeleton L" by (simp add: below_def)
  from ranked_skeleton [OF this, of S rank] "4.prems"(1) have rk: "ranked S rank ?L1" by blast
  from "4.prems"(2) have rest: "\<forall>d \<in> set rest. d \<in> S \<and> rank d < r \<and> rank d < k" by simp
  from "4.IH"(2) [OF L1(1) refl rk rest]
  obtain L2 where L2: "initDeps k env rest ?L1 = Some L2" "below rank r ?L1 L2" by blast
  from b1 L2(2) have "below rank r L L2" by (rule below_trans)
  with L1(1) L2(1) show ?case by simp
qed

lemma finite_dep_rel: "finite (dep_rel ms)"
proof -
  have "dep_rel ms \<subseteq> (\<Union>p \<in> set ms. {fst p} \<times> set (deps (snd p)))"
    by (auto simp: dep_rel_def deps_of_def split: option.splits dest!: map_of_SomeD)
       (metis fst_conv snd_conv)
  moreover have "finite (\<Union>p \<in> set ms. {fst p} \<times> set (deps (snd p)))" by simp
  ultimately show ?thesis by (rule finite_subset)
qed

lemma acyclic_rank:
  assumes "finite r" and "(b, b) \<notin> r\<^sup>+" and "(a, b) \<in> r"
  shows "card (r\<^sup>+ `` {b}) < card (r\<^sup>+ `` {a})"
proof (rule psubset_card_mono)
  from assms(1) have "finite (r\<^sup>+)" by simp
  then show "finite (r\<^sup>+ `` {a})" by (metis finite_Image)
  have "r\<^sup>+ `` {b} \<subseteq> r\<^sup>+ `` {a}" using assms(3) by (auto intro: trancl_into_trancl2)
  moreover have "b \<in> r\<^sup>+ `` {a}" using assms(3) by auto
  moreover have "b \<notin> r\<^sup>+ `` {b}" using assms(2) by auto
  ultimately show "r\<^sup>+ `` {b} \<subset> r\<^sup>+ `` {a}" by blast
qed

lemma reachable_ranked:
  assumes "\<forall>x. (n, x) \<in> (dep_rel (modules L))\<^sup>* \<longrightarrow> (x, x) \<notin> (dep_rel (modules L))\<^sup>+"
  shows "ranked {x. (n, x) \<in> (dep_rel (modules L))\<^sup>*}
           (\<lambda>x. card ((dep_rel (modules L))\<^sup>+ `` {x})) L"
  unfolding ranked_def
proof (intro allI impI)
  fix m d
  assume m: "m \<in> {x. (n, x) \<in> (dep_rel (modules L))\<^sup>*}" and d: "d \<in> deps_of (modules L) m"
  from d have e: "(m, d) \<in> dep_rel (modules L)" by (simp add: dep_rel_def)
  with m have r: "(n, d) \<in> (dep_rel (modules L))\<^sup>*" by (simp add: rtrancl_into_rtrancl)
  with assms have "(d, d) \<notin> (dep_rel (modules L))\<^sup>+" by blast
  with finite_dep_rel
  have "card ((dep_rel (modules L))\<^sup>+ `` {d}) < card ((dep_rel (modules L))\<^sup>+ `` {m})"
    using e by (rule acyclic_rank)
  with r show "d \<in> {x. (n, x) \<in> (dep_rel (modules L))\<^sup>*} \<and>
      card ((dep_rel (modules L))\<^sup>+ `` {d}) < card ((dep_rel (modules L))\<^sup>+ `` {m})"
    by simp
qed

lemma init_invokes:
  assumes ac: "\<forall>x. (name, x) \<in> (dep_rel (modules L))\<^sup>* \<longrightarrow>
                   (x, x) \<notin> (dep_rel (modules L))\<^sup>+"
    and reg: "map_of (modules L) name = Some m"
    and ninit: "name \<notin> initializedModules L"
  shows "\<exists>k L1 new.
           initDeps k env (deps m) L = Some L1 \<and>
           initModule (Suc k) env name L = Some (construct env name (deps m) L1) \<and>
           map_of (modules L1) name = Some m \<and> name \<notin> initializedModules L1 \<and>
           factory_calls L1 = factory_calls L @ new \<and> (\<forall>c \<in> set new. fst c \<noteq> name)"
proof -
  define rank where "rank = (\<lambda>x. card ((dep_rel (modules L))\<^sup>+ `` {x}))"
  define S where "S = {x. (name, x) \<in> (dep_rel (modules L))\<^sup>*}"
  from ac have rk: "ranked S rank L" unfolding rank_def S_def by (rule reachable_ranked)
  have "name \<in> S" by (simp add: S_def)
  with rk reg have "\<forall>d \<in> set (deps m). d \<in> S \<and> rank d < rank name \<and> rank d < rank name"
    by (auto simp: ranked_def deps_of_def)
  from init_below(2) [OF rk this, of env]
  obtain L1 where L1: "initDeps (rank name) env (deps m) L = Some L1" "below rank (rank name) L L1"
    by blast
  from L1(2) obtain new where new: "factory_calls L1 = factory_calls L @ new"
    "\<forall>c \<in> set new. rank (fst c) < rank name"
    and same: "map_of (modules L1) name = map_of (modules L) name"
      "(name \<in> initializedModules L1) = (name \<in> initializedModules L)"
    unfolding below_def by auto
  from new(2) have "\<forall>c \<in> set new. fst c \<noteq> name" by auto
  with L1(1) new(1) same reg ninit show ?thesis
    by (intro exI [of _ "rank name"] exI [of _ L1] exI [of _ new]) simp
qed

lemma register_lookup:
  "\<not> blank name \<Longrightarrow>
     map_of (modules (register name (Some f) ds L)) name =
       Some \<lparr>factory = f, deps = (case ds of None \<Rightarrow> [] | Some d \<Rightarrow> d), inst = None\<rparr>"
  by (simp add: register_def Let_def update_conv' split: option.splits)

lemma register_frame:
  "initializedModules (register name fo ds L) = initializedModules L"
  "factory_calls (register name fo ds L) = factory_calls L"
  by (simp_all add: register_def Let_def split: option.splits)

text \<open>
  Claim C4, as amended. Take a name that is not blank and not yet in
  \<open>initializedModules\<close>, a factory that returns a truthy instance whatever it is given,
  and a dependency list such that, once the entry is registered, no module reachable from
  \<open>name\<close> through the declared dependencies depends on itself. Then \<open>init(name)\<close> after
  \<open>register(name, factory, deps)\<close> returns; of the factory calls it makes, exactly one is
  for \<open>name\<close>, a call of \<open>factory\<close>, whose instance is stored; every later \<open>init(name)\<close>
  answers \<open>true\<close> at once and leaves the loader as it is, so calls no factory; and
  \<open>get(name)\<close> returns that instance.
\<close>

theorem register_init_memoizes:
  assumes valid: "\<not> blank name"
    and truthy: "\<And>args. \<exists>i. env f args = Truthy i"
    and ninit: "name \<notin> initializedModules L"
    and ac: "\<forall>x. (name, x) \<in> (dep_rel (modules (register name (Some f) ds L)))\<^sup>* \<longrightarrow>
                   (x, x) \<notin> (dep_rel (modules (register name (Some f) ds L)))\<^sup>+"
  shows "\<exists>k ok L1 args i.
           initModule k env name (register name (Some f) ds L) = Some (ok, L1) \<and>
           filter (\<lambda>c. fst c = name) (drop (length (factory_calls L)) (factory_calls L1)) =
             [(name, f, args)] \<and>
           env f args = Truthy i \<and>
           (\<forall>k'. initModule (Suc k') env name L1 = Some (True, L1)) \<and>
           get name L1 = (Some i, L1)"
proof -
  let ?L = "register name (Some f) ds L"
  let ?ds = "case ds of None \<Rightarrow> [] | Some d \<Rightarrow> d"
  let ?m = "\<lparr>factory = f, deps = ?ds, inst = None\<rparr>"
  have reg: "map_of (modules ?L) name = Some ?m" using valid by (rule register_lookup)
  from ninit have ninit': "name \<notin> initializedModules ?L" by (simp add: register_frame)
  from init_invokes [OF ac reg ninit', of env]
  obtain k L1 new where
    run: "initModule (Suc k) env name ?L = Some (construct env name ?ds L1)"
    and m1: "map_of (modules L1) name = Some ?m"
    and calls: "factory_calls L1 = factory_calls L @ new" "\<forall>c \<in> set new. fst c \<noteq> name"
    by (auto simp: register_frame)
  let ?args = "map (instance_of L1) ?ds"
  from truthy obtain i where i: "env f ?args = Truthy i" by blast
  obtain ok L2 where c: "construct env name ?ds L1 = (ok, L2)" by (cases "construct env name ?ds L1")
  from calls(2) have none: "filter (\<lambda>c. fst c = name) new = []" by (auto simp: filter_empty_conv)
  from c m1 i calls(1) none
  have a: "filter (\<lambda>c. fst c = name) (drop (length (factory_calls L)) (factory_calls L2)) =
             [(name, f, ?args)]"
    and b: "name \<in> initializedModules L2"
    and g: "get name L2 = (Some i, L2)"
    by (auto simp: construct_def Let_def get_def update_conv' split: if_splits)
  from b have "\<forall>k'. initModule (Suc k') env name L2 = Some (True, L2)" by simp
  with run c a i g show ?thesis
    by (intro exI [of _ "Suc k"] exI [of _ ok] exI [of _ L2] exI [of _ ?args] exI [of _ i]) simp
qed

lemma depth_mono:
  "initModule k env name L = Some r \<Longrightarrow> initModule (Suc k) env name L = Some r"
  "initDeps k env ds L = Some L' \<Longrightarrow> initDeps (Suc k) env ds L = Some L'"
proof (induction k env name L and k env ds L arbitrary: r and L' rule: initModule_initDeps.induct)
  case (1 env name L)
  then show ?case by simp
next
  case (2 k env name L)
  show ?case
  proof (cases "name \<in> initializedModules L")
    case True
    with "2.prems" show ?thesis by simp
  next
    case False
    show ?thesis
    proof (cases "map_of (modules L) name")
      case None
      with False "2.prems" show ?thesis by simp
    next
      case (Some m)
      with False "2.prems" obtain L1 where
        d: "initDeps k env (deps m) L = Some L1" and r: "r = construct env name (deps m) L1"
        by (auto split: option.splits)
      from "2.IH" [OF False Some d] have "initDeps (Suc k) env (deps m) L = Some L1" .
      with False Some r show ?thesis by simp
    qed
  qed
next
  case (3 k env L)
  then show ?case by simp
next
  case (4 k env dep rest L)
  from "4.prems" obtain ok L1 where
    a: "initModule k env dep L = Some (ok, L1)"
    and b: "initDeps k env rest
              (if ok then L1 else L1\<lparr>loader_console := loader_console L1 @ [DependencyFailed dep]\<rparr>) =
            Some L'"
    by (auto split: option.splits)
  from "4.IH"(1) [OF a] have a': "initModule (Suc k) env dep L = Some (ok, L1)" .
  from "4.IH"(2) [OF a refl b] have "initDeps (Suc k) env rest
              (if ok then L1 else L1\<lparr>loader_console := loader_console L1 @ [DependencyFailed dep]\<rparr>) =
            Some L'" .
  with a' show ?case by simp
qed

subsection \<open>Registering a name twice\<close>

lemma modules_diamond:
  "modules diamond =
     [(''A'', \<lparr>factory = 1, deps = [''B'', ''C''], inst = None\<rparr>),
      (''B'', \<lparr>factory = 2, deps = [''D''], inst = None\<rparr>),
      (''C'', \<lparr>factory = 3, deps = [''D''], inst = None\<rparr>),
      (''D'', \<lparr>factory = 4, deps = [], inst = None\<rparr>)]"
  by (simp add: diamond_def register_def loader0_def blank_def Let_def)

lemma modules_mutual:
  "modules mutual =
     [(''A'', \<lparr>factory = 1, deps = [''B''], inst = None\<rparr>),
      (''B'', \<lparr>factory = 2, deps = [''A''], inst = None\<rparr>)]"
  by (simp add: mutual_def register_def loader0_def blank_def Let_def)

lemma resolve_diamond:
  "resolveDependencies (modules diamond) ''A'' ({}, []) =
     ([''D'', ''B'', ''D'', ''C''], {''A'', ''B'', ''C'', ''D''}, [])"
  by (simp add: modules_diamond resolveDependencies.simps push_new_def insert_commute)

lemma resolve_mutual:
  "resolveDependencies (modules mutual) ''A'' ({}, []) = ([''A'', ''B''], {''A'', ''B''}, [])"
  by (simp add: modules_mutual resolveDependencies.simps push_new_def insert_commute)

lemma acyclic_by_rank:
  assumes "\<And>a b. b \<in> deps_of ms a \<Longrightarrow> f b < (f a :: nat)"
  shows "acyclic (dep_rel ms)"
  by (rule acyclicI_order [where f = f]) (simp add: dep_rel_def assms)

lemma construct_calls:
  "map_of (modules L) name = Some m \<Longrightarrow>
     factory_calls (snd (construct env name ds L)) =
       factory_calls L @ [(name, factory m, map (instance_of L) ds)]"
  by (simp add: construct_def Let_def split: fresult.splits)

text \<open>
  Claim C2, as amended. \<open>register\<close> has no check for a name that is already there: the
  second of two registrations under one name replaces the first. After both, the entry
  holds the second factory, the second dependency list and no instance; and \<open>init(name)\<close>,
  for a name not yet initialized and dependencies without a cycle, returns after exactly
  one factory call for \<open>name\<close>, a call of the second factory.
\<close>

theorem register_twice_second_wins:
  assumes valid: "\<not> blank name"
    and ninit: "name \<notin> initializedModules L"
    and ac: "acyclic (dep_rel (modules (register name (Some f2) d2 (register name (Some f1) d1 L))))"
  shows "map_of (modules (register name (Some f2) d2 (register name (Some f1) d1 L))) name =
           Some \<lparr>factory = f2, deps = (case d2 of None \<Rightarrow> [] | Some d \<Rightarrow> d), inst = None\<rparr> \<and>
         (\<exists>k ok L3 args.
            initModule k env name (register name (Some f2) d2 (register name (Some f1) d1 L)) =
              Some (ok, L3) \<and>
            filter (\<lambda>c. fst c = name) (drop (length (factory_calls L)) (factory_calls L3)) =
              [(name, f2, args)])"
proof -
  let ?L = "register name (Some f2) d2 (register name (Some f1) d1 L)"
  let ?ds = "case d2 of None \<Rightarrow> [] | Some d \<Rightarrow> d"
  let ?m = "\<lparr>factory = f2, deps = ?ds, inst = None\<rparr>"
  have reg: "map_of (modules ?L) name = Some ?m" using valid by (rule register_lookup)
  from ninit have ninit': "name \<notin> initializedModules ?L" by (simp add: register_frame)
  from ac have ac': "\<forall>x. (name, x) \<in> (dep_rel (modules ?L))\<^sup>* \<longrightarrow> (x, x) \<notin> (dep_rel (modules ?L))\<^sup>+"
    by (simp add: acyclic_def)
  from init_invokes [OF ac' reg ninit', of env]
  obtain k L1 new where
    run: "initModule (Suc k) env name ?L = Some (construct env name ?ds L1)"
    and m1: "map_of (modules L1) name = Some ?m"
    and calls: "factory_calls L1 = factory_calls L @ new" "\<forall>c \<in> set new. fst c \<noteq> name"
    by (auto simp: register_frame)
  obtain ok L2 where c: "construct env name ?ds L1 = (ok, L2)" by (cases "construct env name ?ds L1")
  from calls(2) have none: "filter (\<lambda>c. fst c = name) new = []" by (auto simp: filter_empty_conv)
  from construct_calls [OF m1, of env ?ds] c calls(1)
  have "factory_calls L2 = factory_calls L @ new @ [(name, f2, map (instance_of L1) ?ds)]" by simp
  with none have "filter (\<lambda>c. fst c = name) (drop (length (factory_calls L)) (factory_calls L2)) =
      [(name, f2, map (instance_of L1) ?ds)]" by simp
  with run c have "\<exists>k ok L3 args. initModule k env name ?L = Some (ok, L3) \<and>
      filter (\<lambda>c. fst c = name) (drop (length (factory_calls L)) (factory_calls L3)) = [(name, f2, args)]"
    by (intro exI [of _ "Suc k"] exI [of _ ok] exI [of _ L2] exI [of _ "map (instance_of L1) ?ds"]) simp
  with reg show ?thesis by (rule conjI)
qed

lemma acyclic_twice:
  "acyclic (dep_rel (modules (register ''m'' (Some 2) (Some [''y''])
                               (register ''m'' (Some 1) (Some [''x'']) loader0))))"
proof (rule acyclic_by_rank [where f = "\<lambda>n. if n = ''m'' then 1 else 0"])
  fix a b
  assume "b \<in> deps_of (modules (register ''m'' (Some 2) (Some [''y''])
                               (register ''m'' (Some 1) (Some [''x'']) loader0))) a"
  then show "(if b = ''m'' then 1 else 0) < (if a = ''m'' then 1 else (0::nat))"
    by (auto simp: deps_of_def register_def loader0_def blank_def Let_def split: if_splits)
qed

theorem register_twice_second_wins_witness:
  "map_of (modules (register ''m'' (Some 2) (Some [''y''])
                     (register ''m'' (Some 1) (Some [''x'']) loader0))) ''m'' =
     Some \<lparr>factory = 2, deps = [''y''], inst = None\<rparr> \<and>
   (\<exists>k ok L3 args.
      initModule k (\<lambda>f a. Truthy (Instance f NoInit)) ''m''
        (register ''m'' (Some 2) (Some [''y'']) (register ''m'' (Some 1) (Some [''x'']) loader0)) =
        Some (ok, L3) \<and>
      filter (\<lambda>c. fst c = ''m'') (drop (length (factory_calls loader0)) (factory_calls L3)) =
        [(''m'', 2, args)])"
proof -
  have v: "\<not> blank ''m''" by (simp add: blank_def)
  have n: "''m'' \<notin> initializedModules loader0" by (simp add: loader0_def)
  from register_twice_second_wins [OF v n acyclic_twice, of "\<lambda>f a. Truthy (Instance f NoInit)"]
  show ?thesis by simp
qed

text \<open>
  The claim as stated fails: after \<open>register('m', f1, ['x'])\<close> and
  \<open>register('m', f2, ['y'])\<close> on the fresh loader the entry holds \<open>f2\<close> and \<open>['y']\<close>, and
  \<open>init('m')\<close> calls \<open>f2\<close>.
\<close>

theorem register_twice_keeps_second:
  "let L = register ''m'' (Some 2) (Some [''y'']) (register ''m'' (Some 1) (Some [''x'']) loader0)
   in map_of (modules L) ''m'' = Some \<lparr>factory = 2, deps = [''y''], inst = None\<rparr> \<and>
      map_of (modules L) ''m'' \<noteq> Some \<lparr>factory = 1, deps = [''x''], inst = None\<rparr> \<and>
      map (\<lambda>c. fst (snd c))
        (factory_calls (snd (the (initModule 2 (\<lambda>f a. Truthy (Instance f NoInit)) ''m'' L)))) = [2]"
  by (simp add: register_def loader0_def blank_def Let_def numeral_2_eq_2 construct_def
      instance_of_def)

subsection \<open>Dependency resolution\<close>

lemma dfs_postD:
  assumes "dfs_post ms S base V res V'"
  shows "V \<subseteq> V'"
    and "V' - V \<subseteq> {x. \<exists>s \<in> S. (s, x) \<in> (dep_rel ms)\<^sup>*} \<inter> dom (map_of ms)"
    and "set res = base \<union> \<Union> (deps_of ms ` (V' - V))"
    and "\<forall>x \<in> V' - V. \<forall>d \<in> deps_of ms x. d \<in> dom (map_of ms) \<longrightarrow> d \<in> V'"
    and "\<forall>s \<in> S. s \<in> dom (map_of ms) \<longrightarrow> s \<in> V'"
  using assms unfolding dfs_post_def by blast+

lemma dfs_postI:
  assumes "V \<subseteq> V'"
    and "V' - V \<subseteq> {x. \<exists>s \<in> S. (s, x) \<in> (dep_rel ms)\<^sup>*} \<inter> dom (map_of ms)"
    and "set res = base \<union> \<Union> (deps_of ms ` (V' - V))"
    and "\<forall>x \<in> V' - V. \<forall>d \<in> deps_of ms x. d \<in> dom (map_of ms) \<longrightarrow> d \<in> V'"
    and "\<forall>s \<in> S. s \<in> dom (map_of ms) \<longrightarrow> s \<in> V'"
  shows "dfs_post ms S base V res V'"
  using assms unfolding dfs_post_def by blast

lemma set_push_new [simp]: "set (push_new d xs) = insert d (set xs)"
  by (auto simp: push_new_def)

lemma dep_rel_step: "map_of ms a = Some m \<Longrightarrow> d \<in> set (deps m) \<Longrightarrow> (a, d) \<in> dep_rel ms"
  by (simp add: dep_rel_def deps_of_def)

lemma dfs_inv:
  "dfs_post ms {name} {} (fst vc) (fst (resolveDependencies ms name vc))
     (fst (snd (resolveDependencies ms name vc)))"
  "dfs_post ms (set ds) (set resolved \<union> set ds) (fst vc) (fst (resolveEach ms ds resolved vc))
     (fst (snd (resolveEach ms ds resolved vc)))"
proof (induction ms name vc and ms ds resolved vc rule: resolveDependencies_resolveEach.induct)
  case (1 ms name vc)
  show ?case
  proof (cases "name \<in> fst vc")
    case True
    then have "resolveDependencies ms name vc = ([], fst vc, snd vc @ [CycleDetected name])"
      by (simp add: resolveDependencies.simps)
    with True show ?thesis by (simp add: dfs_post_def)
  next
    case False
    note nv = this
    show ?thesis
    proof (cases "map_of ms name")
      case None
      with nv have "resolveDependencies ms name vc = ([], fst vc, snd vc @ [ModuleMissing name])"
        by (simp add: resolveDependencies.simps)
      moreover from None have "name \<notin> dom (map_of ms)" by auto
      ultimately show ?thesis by (simp add: dfs_post_def)
    next
      case (Some m)
      define res where "res = resolveEach ms (deps m) [] (insert name (fst vc), snd vc)"
      define V' where "V' = fst (snd res)"
      define V1 where "V1 = insert name (fst vc)"
      define R where "R = dep_rel ms"
      define D where "D = dom (map_of ms)"
      from "1.IH" [OF nv Some]
      have ih: "dfs_post ms (set (deps m)) (set (deps m)) V1 (fst res) V'"
        by (simp add: res_def V'_def V1_def)
      have eq: "resolveDependencies ms name vc = res"
        using nv Some by (simp add: resolveDependencies.simps res_def)
      note b = dfs_postD [OF ih, folded R_def D_def]
      from b(1) nv have split: "V' - fst vc = insert name (V' - V1)" by (auto simp: V1_def)
      have dn: "deps_of ms name = set (deps m)" using Some by (simp add: deps_of_def)
      have "(name, x) \<in> R\<^sup>*" if "s \<in> set (deps m)" "(s, x) \<in> R\<^sup>*" for s x
        using Some that unfolding R_def by (meson dep_rel_step converse_rtrancl_into_rtrancl)
      then have reach: "{x. \<exists>s\<in>set (deps m). (s, x) \<in> R\<^sup>*} \<subseteq> {x. (name, x) \<in> R\<^sup>*}"
        by blast
      have nd: "name \<in> D" using Some by (auto simp: D_def)
      have "dfs_post ms {name} {} (fst vc) (fst res) V'"
      proof (rule dfs_postI, fold R_def D_def)
        show "fst vc \<subseteq> V'" using b(1) by (auto simp: V1_def)
        have "V' - V1 \<subseteq> {x. (name, x) \<in> R\<^sup>*} \<inter> D"
          using b(2) reach by blast
        with nd show "V' - fst vc \<subseteq> {x. \<exists>s\<in>{name}. (s, x) \<in> R\<^sup>*} \<inter> D"
          unfolding split by simp
        show "set (fst res) = {} \<union> \<Union> (deps_of ms ` (V' - fst vc))"
          unfolding split b(3) using dn by simp
        show "\<forall>x\<in>V' - fst vc. \<forall>d\<in>deps_of ms x. d \<in> D \<longrightarrow> d \<in> V'"
          unfolding split using b(4) b(5) dn by simp
        show "\<forall>s\<in>{name}. s \<in> D \<longrightarrow> s \<in> V'" using b(1) by (auto simp: V1_def)
      qed
      then show ?thesis unfolding eq V'_def .
    qed
  qed
next
  case (2 ms resolved vc)
  show ?case by (simp add: dfs_post_def)
next
  case (3 ms dep rest resolved vc)
  define R where "R = dep_rel ms"
  define D where "D = dom (map_of ms)"
  show ?case
  proof (cases "dep \<in> fst vc")
    case True
    define res where "res = resolveEach ms rest (push_new dep resolved) vc"
    define V' where "V' = fst (snd res)"
    from "3.IH"(3) True
    have ih: "dfs_post ms (set rest) (insert dep (set resolved) \<union> set rest) (fst vc) (fst res) V'"
      by (simp add: res_def V'_def)
    have eq: "resolveEach ms (dep # rest) resolved vc = res"
      using True by (simp add: res_def)
    note b = dfs_postD [OF ih, folded R_def D_def]
    have "dfs_post ms (set (dep # rest)) (set resolved \<union> set (dep # rest)) (fst vc) (fst res) V'"
    proof (rule dfs_postI, fold R_def D_def)
      show "fst vc \<subseteq> V'" by (rule b(1))
      show "V' - fst vc \<subseteq> {x. \<exists>s\<in>set (dep # rest). (s, x) \<in> R\<^sup>*} \<inter> D"
        using b(2) by auto
      show "set (fst res) = set resolved \<union> set (dep # rest) \<union> \<Union> (deps_of ms ` (V' - fst vc))"
        unfolding b(3) by auto
      show "\<forall>x\<in>V' - fst vc. \<forall>d\<in>deps_of ms x. d \<in> D \<longrightarrow> d \<in> V'" by (rule b(4))
      show "\<forall>s\<in>set (dep # rest). s \<in> D \<longrightarrow> s \<in> V'" using b(5) b(1) True by auto
    qed
    then show ?thesis unfolding eq V'_def .
  next
    case False
    obtain depDeps vc1 where r: "resolveDependencies ms dep vc = (depDeps, vc1)"
      by (cases "resolveDependencies ms dep vc") auto
    define res where "res = resolveEach ms rest (push_new dep (resolved @ depDeps)) vc1"
    define V where "V = fst vc"
    define V1 where "V1 = fst vc1"
    define V' where "V' = fst (snd res)"
    from "3.IH"(1) [OF False] r
    have ih1: "dfs_post ms {dep} {} V depDeps V1" by (simp add: V_def V1_def)
    from "3.IH"(2) [OF False r [symmetric]]
    have ih2: "dfs_post ms (set rest) (insert dep (set resolved \<union> set depDeps) \<union> set rest) V1 (fst res) V'"
      by (simp add: res_def V1_def V'_def)
    have eq: "resolveEach ms (dep # rest) resolved vc = res"
      using False r by (simp add: res_def)
    note a = dfs_postD [OF ih1, folded R_def D_def]
    note b = dfs_postD [OF ih2, folded R_def D_def]
    from a(1) b(1) have split: "V' - V = (V1 - V) \<union> (V' - V1)" by auto
    have "dfs_post ms (set (dep # rest)) (set resolved \<union> set (dep # rest)) V (fst res) V'"
    proof (rule dfs_postI, fold R_def D_def)
      show "V \<subseteq> V'" using a(1) b(1) by auto
      show "V' - V \<subseteq> {x. \<exists>s\<in>set (dep # rest). (s, x) \<in> R\<^sup>*} \<inter> D"
        unfolding split using a(2) b(2) by auto
      show "set (fst res) = set resolved \<union> set (dep # rest) \<union> \<Union> (deps_of ms ` (V' - V))"
        unfolding split b(3) a(3) by auto
      show "\<forall>x\<in>V' - V. \<forall>d\<in>deps_of ms x. d \<in> D \<longrightarrow> d \<in> V'"
        unfolding split using a(4) b(4) b(1) by blast
      show "\<forall>s\<in>set (dep # rest). s \<in> D \<longrightarrow> s \<in> V'"
        using a(5) b(5) b(1) by auto
    qed
    then show ?thesis unfolding eq V'_def V_def .
  qed
qed

lemma resolve_closure:
  assumes reg: "map_of ms n = Some m"
  shows "set (fst (resolveDependencies ms n ({}, c))) = {d. (n, d) \<in> (dep_rel ms)\<^sup>+}"
proof -
  let ?res = "resolveDependencies ms n ({}, c)"
  let ?V' = "fst (snd ?res)"
  from dfs_inv(1) [of ms n "({}, c)"]
  have p: "dfs_post ms {n} {} {} (fst ?res) ?V'" by simp
  note q = dfs_postD [OF p]
  from q(2) have reach: "?V' \<subseteq> {x. (n, x) \<in> (dep_rel ms)\<^sup>*} \<inter> dom (map_of ms)" by simp
  from q(3) have res: "set (fst ?res) = \<Union> (deps_of ms ` ?V')" by simp
  from q(4) have closed: "\<forall>x\<in>?V'. \<forall>d\<in>deps_of ms x. d \<in> dom (map_of ms) \<longrightarrow> d \<in> ?V'" by simp
  from q(5) reg have start: "n \<in> ?V'" by auto
  have all: "(n, x) \<in> (dep_rel ms)\<^sup>* \<Longrightarrow> x \<in> dom (map_of ms) \<Longrightarrow> x \<in> ?V'" for x
  proof (induction rule: rtrancl_induct)
    case base
    show ?case by (rule start)
  next
    case (step y z)
    from step(2) have yd: "y \<in> dom (map_of ms)" "z \<in> deps_of ms y"
      by (auto simp: dep_rel_def deps_of_def split: option.splits)
    with step have "y \<in> ?V'" by simp
    with closed yd(2) step(4) show ?case by blast
  qed
  show ?thesis
  proof (intro set_eqI iffI)
    fix d assume "d \<in> set (fst ?res)"
    with res obtain x where x: "x \<in> ?V'" "d \<in> deps_of ms x" by auto
    with reach have "(n, x) \<in> (dep_rel ms)\<^sup>*" by auto
    moreover from x(2) have "(x, d) \<in> dep_rel ms" by (simp add: dep_rel_def)
    ultimately show "d \<in> {d. (n, d) \<in> (dep_rel ms)\<^sup>+}" by auto
  next
    fix d assume "d \<in> {d. (n, d) \<in> (dep_rel ms)\<^sup>+}"
    then have "(n, d) \<in> (dep_rel ms)\<^sup>+" by simp
    then obtain x where x: "(n, x) \<in> (dep_rel ms)\<^sup>*" "(x, d) \<in> dep_rel ms"
      by (meson tranclD2)
    from x(2) have xd: "x \<in> dom (map_of ms)" "d \<in> deps_of ms x"
      by (auto simp: dep_rel_def deps_of_def split: option.splits)
    from all [OF x(1) xd(1)] xd(2) res show "d \<in> set (fst ?res)" by auto
  qed
qed

lemma deps_before_append:
  "deps_before ms A (xs @ ys) = (deps_before ms A xs \<and> deps_before ms (A \<union> set xs) ys)"
  by (induction xs arbitrary: A) simp_all

lemma deps_before_mono: "deps_before ms A xs \<Longrightarrow> A \<subseteq> B \<Longrightarrow> deps_before ms B xs"
proof (induction xs arbitrary: A B)
  case Nil
  show ?case by simp
next
  case (Cons x xs)
  from Cons.prems have "deps_of ms x \<subseteq> B" by auto
  moreover from Cons.prems have "deps_before ms (insert x B) xs"
    by (auto intro: Cons.IH [of "insert x A" "insert x B"])
  ultimately show ?case by simp
qed

lemma deps_before_nth:
  "deps_before ms A xs \<Longrightarrow> i < length xs \<Longrightarrow> deps_of ms (xs ! i) \<subseteq> A \<union> set (take i xs)"
proof (induction xs arbitrary: A i)
  case Nil
  then show ?case by simp
next
  case (Cons x xs)
  show ?case
  proof (cases i)
    case 0
    with Cons.prems show ?thesis by auto
  next
    case (Suc j)
    from Suc Cons.prems have "deps_before ms (insert x A) xs" and "j < length xs" by simp_all
    then have "deps_of ms (xs ! j) \<subseteq> insert x A \<union> set (take j xs)"
      by (rule Cons.IH)
    with Suc show ?thesis by auto
  qed
qed

lemma deps_before_push_new:
  "deps_before ms A xs \<Longrightarrow> deps_of ms d \<subseteq> A \<union> set xs \<Longrightarrow> deps_before ms A (push_new d xs)"
  by (simp add: push_new_def deps_before_append)

lemma order_inv:
  "\<lbrakk>\<forall>x. (name, x) \<in> (dep_rel ms)\<^sup>* \<longrightarrow> (x, x) \<notin> (dep_rel ms)\<^sup>+;
    \<forall>y \<in> fst vc. (name, y) \<in> (dep_rel ms)\<^sup>* \<longrightarrow> deps_of ms y \<subseteq> A\<rbrakk>
   \<Longrightarrow> deps_before ms A (fst (resolveDependencies ms name vc))"
  "\<lbrakk>\<forall>d \<in> set ds. \<forall>x. (d, x) \<in> (dep_rel ms)\<^sup>* \<longrightarrow> (x, x) \<notin> (dep_rel ms)\<^sup>+;
    \<forall>y \<in> fst vc. \<forall>d \<in> set ds. (d, y) \<in> (dep_rel ms)\<^sup>* \<longrightarrow> deps_of ms y \<subseteq> A \<union> set resolved;
    deps_before ms A resolved\<rbrakk>
   \<Longrightarrow> deps_before ms A (fst (resolveEach ms ds resolved vc))"
proof (induction ms name vc and ms ds resolved vc arbitrary: A and A
        rule: resolveDependencies_resolveEach.induct)
  case (1 ms name vc)
  define R where "R = dep_rel ms"
  note acyc = "1.prems"(1) [folded R_def] and pre = "1.prems"(2) [folded R_def]
  show ?case
  proof (cases "name \<in> fst vc")
    case True
    then show ?thesis by (simp add: resolveDependencies.simps)
  next
    case False
    note nv = this
    show ?thesis
    proof (cases "map_of ms name")
      case None
      with nv show ?thesis by (simp add: resolveDependencies.simps)
    next
      case (Some m)
      have eq: "resolveDependencies ms name vc = resolveEach ms (deps m) [] (insert name (fst vc), snd vc)"
        using nv Some by (simp add: resolveDependencies.simps)
      have edge: "(name, d) \<in> R" if "d \<in> set (deps m)" for d
        using Some that unfolding R_def by (rule dep_rel_step)
      have p1: "\<forall>d \<in> set (deps m). \<forall>x. (d, x) \<in> R\<^sup>* \<longrightarrow> (x, x) \<notin> R\<^sup>+"
      proof (intro ballI allI impI)
        fix d x
        assume "d \<in> set (deps m)" and "(d, x) \<in> R\<^sup>*"
        then have "(name, x) \<in> R\<^sup>*" using edge by (blast intro: converse_rtrancl_into_rtrancl)
        with acyc show "(x, x) \<notin> R\<^sup>+" by blast
      qed
      have p2: "\<forall>y \<in> fst (insert name (fst vc), snd vc). \<forall>d \<in> set (deps m).
                  (d, y) \<in> R\<^sup>* \<longrightarrow> deps_of ms y \<subseteq> A \<union> set []"
      proof (intro ballI impI)
        fix y d
        assume y: "y \<in> fst (insert name (fst vc), snd vc)" and d: "d \<in> set (deps m)"
          and dy: "(d, y) \<in> R\<^sup>*"
        from edge [OF d] dy have ny: "(name, y) \<in> R\<^sup>+" by (rule rtrancl_into_trancl2)
        show "deps_of ms y \<subseteq> A \<union> set []"
        proof (cases "y = name")
          case True
          with ny acyc show ?thesis by blast
        next
          case False
          with y have "y \<in> fst vc" by simp
          moreover from ny have "(name, y) \<in> R\<^sup>*" by (rule trancl_into_rtrancl)
          ultimately show ?thesis using pre by blast
        qed
      qed
      from "1.IH" [OF nv Some p1 [unfolded R_def] p2 [unfolded R_def]]
      show ?thesis unfolding eq by simp
    qed
  qed
next
  case (2 ms resolved vc)
  then show ?case by simp
next
  case (3 ms dep rest resolved vc)
  define R where "R = dep_rel ms"
  note acyc = "3.prems"(1) [folded R_def] and pre = "3.prems"(2) [folded R_def]
    and ord = "3.prems"(3)
  from acyc have acyc_dep: "\<forall>x. (dep, x) \<in> R\<^sup>* \<longrightarrow> (x, x) \<notin> R\<^sup>+"
    by (meson list.set_intros(1))
  from acyc have acyc_rest: "\<forall>d \<in> set rest. \<forall>x. (d, x) \<in> R\<^sup>* \<longrightarrow> (x, x) \<notin> R\<^sup>+"
    by (meson list.set_intros(2))
  show ?case
  proof (cases "dep \<in> fst vc")
    case True
    have eq: "resolveEach ms (dep # rest) resolved vc = resolveEach ms rest (push_new dep resolved) vc"
      using True by simp
    have "(dep, dep) \<in> R\<^sup>*" by simp
    with pre True have "deps_of ms dep \<subseteq> A \<union> set resolved" by (meson list.set_intros(1))
    with ord have o: "deps_before ms A (push_new dep resolved)" by (rule deps_before_push_new)
    have p: "\<forall>y \<in> fst vc. \<forall>d \<in> set rest. (d, y) \<in> R\<^sup>* \<longrightarrow>
               deps_of ms y \<subseteq> A \<union> set (push_new dep resolved)"
    proof (intro ballI impI)
      fix y d
      assume "y \<in> fst vc" and "d \<in> set rest" and "(d, y) \<in> R\<^sup>*"
      with pre have "deps_of ms y \<subseteq> A \<union> set resolved" by (meson list.set_intros(2))
      then show "deps_of ms y \<subseteq> A \<union> set (push_new dep resolved)" by auto
    qed
    from True have "\<not> dep \<notin> fst vc" by simp
    from "3.IH"(3) [OF this acyc_rest [unfolded R_def] p [unfolded R_def] o]
    show ?thesis unfolding eq .
  next
    case False
    obtain depDeps vc1 where r: "resolveDependencies ms dep vc = (depDeps, vc1)"
      by (cases "resolveDependencies ms dep vc") auto
    have eq: "resolveEach ms (dep # rest) resolved vc =
                resolveEach ms rest (push_new dep (resolved @ depDeps)) vc1"
      using False r by simp
    from dfs_inv(1) [of ms dep vc] r
    have post: "dfs_post ms {dep} {} (fst vc) depDeps (fst vc1)" by simp
    note q = dfs_postD [OF post]
    have p1: "\<forall>y \<in> fst vc. (dep, y) \<in> R\<^sup>* \<longrightarrow> deps_of ms y \<subseteq> A \<union> set resolved"
      using pre by (meson list.set_intros(1))
    from "3.IH"(1) [OF False acyc_dep [unfolded R_def] p1 [unfolded R_def]] r
    have "deps_before ms (A \<union> set resolved) depDeps" by simp
    with ord have o1: "deps_before ms A (resolved @ depDeps)" by (simp add: deps_before_append)
    have "deps_of ms dep \<subseteq> A \<union> set (resolved @ depDeps)"
    proof (cases "dep \<in> dom (map_of ms)")
      case True
      with q(5) False have "dep \<in> fst vc1 - fst vc" by auto
      with q(3) show ?thesis by auto
    next
      case False
      then show ?thesis by (auto simp: deps_of_def)
    qed
    with o1 have o: "deps_before ms A (push_new dep (resolved @ depDeps))"
      by (rule deps_before_push_new)
    have p: "\<forall>y \<in> fst vc1. \<forall>d \<in> set rest. (d, y) \<in> R\<^sup>* \<longrightarrow>
               deps_of ms y \<subseteq> A \<union> set (push_new dep (resolved @ depDeps))"
    proof (intro ballI impI)
      fix y d
      assume y: "y \<in> fst vc1" and d: "d \<in> set rest" and dy: "(d, y) \<in> R\<^sup>*"
      show "deps_of ms y \<subseteq> A \<union> set (push_new dep (resolved @ depDeps))"
      proof (cases "y \<in> fst vc")
        case True
        with pre d dy have "deps_of ms y \<subseteq> A \<union> set resolved" by (meson list.set_intros(2))
        then show ?thesis by auto
      next
        case False
        with y q(3) have "deps_of ms y \<subseteq> set depDeps" by auto
        then show ?thesis by auto
      qed
    qed
    from "3.IH"(2) [OF False r [symmetric] acyc_rest [unfolded R_def] p [unfolded R_def] o]
    show ?thesis unfolding eq .
  qed
qed

lemma resolve_order:
  assumes "\<forall>x. (n, x) \<in> (dep_rel ms)\<^sup>* \<longrightarrow> (x, x) \<notin> (dep_rel ms)\<^sup>+"
    and "i < length (fst (resolveDependencies ms n ({}, c)))"
  shows "deps_of ms (fst (resolveDependencies ms n ({}, c)) ! i) \<subseteq>
           set (take i (fst (resolveDependencies ms n ({}, c))))"
proof -
  from order_inv(1) [OF assms(1), of "({}, c)" "{}"]
  have "deps_before ms {} (fst (resolveDependencies ms n ({}, c)))" by simp
  from deps_before_nth [OF this assms(2)] show ?thesis by simp
qed

text \<open>
  Claim C3, as amended. For a registered name \<open>n\<close>, the names that
  \<open>resolveDependencies(n)\<close> lists are exactly the transitive dependencies of \<open>n\<close>; and when
  no name reachable from \<open>n\<close> depends on itself, every listed name that is registered has
  all its declared dependencies earlier in the list than each of its occurrences.
\<close>

theorem resolve_lists_transitive_dependencies:
  assumes "map_of (modules L) n = Some m"
  shows "set (fst (resolveDependencies (modules L) n ({}, c))) =
           {d. (n, d) \<in> (dep_rel (modules L))\<^sup>+} \<and>
         ((\<forall>x. (n, x) \<in> (dep_rel (modules L))\<^sup>* \<longrightarrow> (x, x) \<notin> (dep_rel (modules L))\<^sup>+) \<longrightarrow>
          (\<forall>i < length (fst (resolveDependencies (modules L) n ({}, c))).
             deps_of (modules L) (fst (resolveDependencies (modules L) n ({}, c)) ! i) \<subseteq>
               set (take i (fst (resolveDependencies (modules L) n ({}, c))))))"
  using resolve_closure [OF assms, of c] resolve_order [of n "modules L" _ c]
  by blast

lemma acyclic_diamond: "acyclic (dep_rel (modules diamond))"
proof (rule acyclic_by_rank
    [where f = "\<lambda>n. if n = ''A'' then 2 else if n = ''B'' \<or> n = ''C'' then 1 else 0"])
  fix a b
  assume "b \<in> deps_of (modules diamond) a"
  then show "(if b = ''A'' then 2 else if b = ''B'' \<or> b = ''C'' then 1 else 0)
      < (if a = ''A'' then 2 else if a = ''B'' \<or> a = ''C'' then 1 else (0::nat))"
    by (auto simp: deps_of_def modules_diamond split: if_splits)
qed

theorem resolve_lists_transitive_dependencies_witness:
  "set (fst (resolveDependencies (modules diamond) ''A'' ({}, []))) =
     {d. (''A'', d) \<in> (dep_rel (modules diamond))\<^sup>+} \<and>
   deps_of (modules diamond) (fst (resolveDependencies (modules diamond) ''A'' ({}, [])) ! 3) \<subseteq>
     set (take 3 (fst (resolveDependencies (modules diamond) ''A'' ({}, []))))"
proof -
  have reg: "map_of (modules diamond) ''A'' = Some \<lparr>factory = 1, deps = [''B'', ''C''], inst = None\<rparr>"
    by (simp add: modules_diamond)
  have ac: "\<forall>x. (''A'', x) \<in> (dep_rel (modules diamond))\<^sup>* \<longrightarrow>
                (x, x) \<notin> (dep_rel (modules diamond))\<^sup>+"
    using acyclic_diamond by (simp add: acyclic_def)
  have len: "3 < length (fst (resolveDependencies (modules diamond) ''A'' ({}, [])))"
    by (simp add: resolve_diamond)
  note t = resolve_lists_transitive_dependencies [OF reg, of "[]"]
  note a = t [THEN conjunct1]
  note b = t [THEN conjunct2, THEN mp, OF ac, THEN spec, THEN mp, OF len]
  show ?thesis by (rule conjI) (rule a, rule b)
qed

text \<open>
  The claim as stated fails twice. On the diamond the list repeats \<open>D\<close>: the result of a
  recursive call is appended without the \<open>includes\<close> test. On the two modules that need
  each other the list for \<open>A\<close> is \<open>A, B\<close>, where \<open>A\<close> needs \<open>B\<close> and stands before it.
\<close>

theorem resolve_repeats_and_cycles:
  "fst (resolveDependencies (modules diamond) ''A'' ({}, [])) = [''D'', ''B'', ''D'', ''C''] \<and>
   \<not> distinct (fst (resolveDependencies (modules diamond) ''A'' ({}, []))) \<and>
   fst (resolveDependencies (modules mutual) ''A'' ({}, [])) = [''A'', ''B''] \<and>
   ''B'' \<in> deps_of (modules mutual) ''A''"
proof -
  have "''B'' \<in> deps_of (modules mutual) ''A''" by (simp add: deps_of_def modules_mutual)
  then show ?thesis by (simp add: resolve_diamond resolve_mutual)
qed

text \<open>
  Claim C5. \<open>resolveDependencies\<close> is a total function: every call returns. With \<open>A\<close>
  needing \<open>B\<close> and \<open>B\<close> needing \<open>A\<close>, \<open>resolveDependencies('A')\<close> returns \<open>['A', 'B']\<close> and
  prints nothing: the loop recurses only into names that are not yet visited, so the test
  that prints the cycle warning never holds.
\<close>

theorem cycle_resolves_without_warning:
  "resolveDependencies (modules mutual) ''A'' ({}, loader_console mutual) =
     ([''A'', ''B''], {''A'', ''B''}, []) \<and>
   CycleDetected ''A'' \<notin> set (snd (snd (resolveDependencies (modules mutual) ''A''
                                          ({}, loader_console mutual)))) \<and>
   CycleDetected ''B'' \<notin> set (snd (snd (resolveDependencies (modules mutual) ''A''
                                          ({}, loader_console mutual))))"
proof -
  have "loader_console mutual = []"
    by (simp add: mutual_def register_def loader0_def blank_def Let_def)
  then show ?thesis by (simp add: resolve_mutual)
qed

lemma no_cycle_by_rank:
  assumes closed: "\<And>a b. a \<in> S \<Longrightarrow> b \<in> deps_of ms a \<Longrightarrow> b \<in> S \<and> f b < (f a :: nat)"
    and start: "n \<in> S"
  shows "\<forall>x. (n, x) \<in> (dep_rel ms)\<^sup>* \<longrightarrow> (x, x) \<notin> (dep_rel ms)\<^sup>+"
proof (intro allI impI)
  fix x
  assume "(n, x) \<in> (dep_rel ms)\<^sup>*"
  then have xs: "x \<in> S"
  proof (induction rule: rtrancl_induct)
    case base
    show ?case by (rule start)
  next
    case (step y z)
    from step(2) have "z \<in> deps_of ms y" by (simp add: dep_rel_def)
    with closed step(3) show ?case by blast
  qed
  have down: "(a, b) \<in> (dep_rel ms)\<^sup>+ \<Longrightarrow> a \<in> S \<Longrightarrow> b \<in> S \<and> f b < f a" for a b
  proof (induction rule: trancl_induct)
    case (base y)
    then have "y \<in> deps_of ms a" by (simp add: dep_rel_def)
    with closed base(2) show ?case by blast
  next
    case (step y z)
    from step(2) have "z \<in> deps_of ms y" by (simp add: dep_rel_def)
    with closed step(3) [OF step(4)] have "z \<in> S \<and> f z < f y" by blast
    with step(3) [OF step(4)] show ?case by simp
  qed
  show "(x, x) \<notin> (dep_rel ms)\<^sup>+"
  proof
    assume "(x, x) \<in> (dep_rel ms)\<^sup>+"
    from down [OF this xs] show False by simp
  qed
qed

lemma modules_beside_cycle:
  "modules (register ''c'' (Some 3) (Some [''d'']) mutual) =
     [(''A'', \<lparr>factory = 1, deps = [''B''], inst = None\<rparr>),
      (''B'', \<lparr>factory = 2, deps = [''A''], inst = None\<rparr>),
      (''c'', \<lparr>factory = 3, deps = [''d''], inst = None\<rparr>)]"
  by (simp add: mutual_def register_def loader0_def blank_def Let_def)

lemma no_cycle_beside_cycle:
  "\<forall>x. (''c'', x) \<in> (dep_rel (modules (register ''c'' (Some 3) (Some [''d'']) mutual)))\<^sup>* \<longrightarrow>
       (x, x) \<notin> (dep_rel (modules (register ''c'' (Some 3) (Some [''d'']) mutual)))\<^sup>+"
proof (rule no_cycle_by_rank [where S = "{''c'', ''d''}" and f = "\<lambda>n. if n = ''c'' then 1 else 0"])
  fix a b
  assume "a \<in> {''c'', ''d''}"
    and "b \<in> deps_of (modules (register ''c'' (Some 3) (Some [''d'']) mutual)) a"
  then show "b \<in> {''c'', ''d''} \<and>
      (if b = ''c'' then 1 else 0) < (if a = ''c'' then 1 else (0::nat))"
    by (auto simp: deps_of_def modules_beside_cycle split: if_splits)
next
  show "''c'' \<in> {''c'', ''d''}" by simp
qed

theorem register_init_memoizes_witness:
  "\<exists>k ok L1 args i.
     initModule k plain_factories ''c'' (register ''c'' (Some 3) (Some [''d'']) mutual) =
       Some (ok, L1) \<and>
     filter (\<lambda>c. fst c = ''c'') (drop (length (factory_calls mutual)) (factory_calls L1)) =
       [(''c'', 3, args)] \<and>
     plain_factories 3 args = Truthy i \<and>
     (\<forall>k'. initModule (Suc k') plain_factories ''c'' L1 = Some (True, L1)) \<and>
     get ''c'' L1 = (Some i, L1)"
proof -
  have v: "\<not> blank ''c''" by (simp add: blank_def)
  have t: "\<And>args. \<exists>i. plain_factories 3 args = Truthy i" by (simp add: plain_factories_def)
  have n: "''c'' \<notin> initializedModules mutual"
    by (simp add: mutual_def register_frame loader0_def)
  show ?thesis
    by (rule register_init_memoizes
          [where env = plain_factories and f = 3 and name = "''c''" and ds = "Some [''d'']"
             and L = mutual, OF v t n no_cycle_beside_cycle])
qed

lemma cycle_never_initializes:
  "initModule k env ''A'' mutual = None \<and> initModule k env ''B'' mutual = None"
proof (induction k)
  case 0
  show ?case by simp
next
  case (Suc k)
  have i: "initializedModules mutual = {}"
    by (simp add: mutual_def register_frame loader0_def)
  from Suc show ?case by (simp add: i modules_mutual)
qed

text \<open>
  The claim as stated fails twice. After \<open>register('a', f1)\<close>, \<open>init('a')\<close> and
  \<open>register('a', f2)\<close>, the name is still in \<open>initializedModules\<close> while the new entry has
  no instance: \<open>init('a')\<close> answers \<open>true\<close> without calling \<open>f2\<close>, and \<open>get('a')\<close> returns
  \<open>null\<close>. And after \<open>register('A', fA, ['B'])\<close> and \<open>register('B', fB, ['A'])\<close>,
  \<open>init('B')\<close> recurses without end: it returns at no depth.
\<close>

theorem init_skips_reregistered_and_cycles:
  "(let L1 = register ''a'' (Some 1) None loader0;
        L2 = snd (the (initModule 1 plain_factories ''a'' L1));
        L3 = register ''a'' (Some 2) None L2
    in initModule 1 plain_factories ''a'' L3 = Some (True, L3) \<and>
       factory_calls L3 = [(''a'', 1, [])] \<and>
       fst (get ''a'' L3) = None) \<and>
   (\<forall>k. initModule k plain_factories ''B'' mutual = None)"
proof -
  have "\<forall>k. initModule k plain_factories ''B'' mutual = None"
    using cycle_never_initializes by blast
  then show ?thesis
    by (simp add: register_def loader0_def blank_def Let_def construct_def plain_factories_def
        get_def)
qed


section \<open>Properties of the state store\<close>

lemma map_of_spread: "map_of (spread a b) = map_of a ++ map_of (rev b)"
  unfolding spread_def
proof (induction b arbitrary: a)
  case Nil
  show ?case by simp
next
  case (Cons kv b)
  show ?case
    by (cases kv) (auto simp: Cons.IH update_conv' map_of_append map_add_def fun_eq_iff
          split: option.splits)
qed

lemma distinct_spread: "distinct (map fst a) \<Longrightarrow> distinct (map fst (spread a b))"
  unfolding spread_def
  by (induction b arbitrary: a) (simp_all add: distinct_update)

lemma map_of_rev_distinct: "distinct (map fst xs) \<Longrightarrow> map_of (rev xs) = map_of xs"
  by (rule map_of_inject_set [THEN iffD2]) (simp_all add: rev_map [symmetric])

lemma map_of_spread_distinct:
  "distinct (map fst b) \<Longrightarrow> map_of (spread a b) = map_of a ++ map_of b"
  by (simp add: map_of_spread map_of_rev_distinct)

lemma call_each_state [simp]: "state (call_each env mk args cbs s) = state s"
  by (induction cbs arbitrary: s) (simp_all add: Let_def split: outcome.splits)

lemma call_each_listeners [simp]: "key_listeners (call_each env mk args cbs s) = key_listeners s"
  by (induction cbs arbitrary: s) (simp_all add: Let_def split: outcome.splits)

lemma notify_keys_state [simp]: "state (notify_keys env ks old s) = state s"
  by (induction ks arbitrary: s) (simp_all split: option.splits)

lemma notifyListeners_state [simp]: "state (notifyListeners env ups old s) = state s"
  by (simp add: notifyListeners_def Let_def split: option.splits)


lemma ensure_loaded_fields [simp]:
  "key_listeners (ensure_loaded s) = key_listeners s"
  "notified (ensure_loaded s) = notified s"
  by (simp_all add: ensure_loaded_def loadFromStorage_def split: option.splits)

lemma saveToStorage_fields [simp]:
  "key_listeners (saveToStorage s) = key_listeners s"
  "notified (saveToStorage s) = notified s"
  "state (saveToStorage s) = state s"
  by (simp_all add: saveToStorage_def split: option.splits)

lemma call_each_notified:
  "notified (call_each env mk args cbs s) = notified s @ map (\<lambda>cb. (cb, args)) cbs"
  by (induction cbs arbitrary: s) (simp_all add: Let_def split: outcome.splits)

lemma notify_keys_listeners [simp]: "key_listeners (notify_keys env ks old s) = key_listeners s"
  by (induction ks arbitrary: s) (simp_all split: option.splits)

lemma notifyListeners_listeners [simp]:
  "key_listeners (notifyListeners env ups old s) = key_listeners s"
  by (simp add: notifyListeners_def Let_def split: option.splits)

lemma setState_state:
  "state (snd (setState env ups s)) =
     Some (spread (spread [] (current (ensure_loaded s))) ups)"
  by (simp add: setState_def Let_def)

lemma setState_listeners [simp]: "key_listeners (snd (setState env ups s)) = key_listeners s"
  by (simp add: setState_def Let_def)

lemma setState_quiet:
  "key_listeners s = [] \<Longrightarrow> notified (snd (setState env ups s)) = notified s"
proof -
  assume e: "key_listeners s = []"
  have "key_listeners s' = [] \<Longrightarrow> notified (notify_keys env ks old s') = notified s'" for ks old s'
    by (induction ks arbitrary: s') simp_all
  with e show ?thesis by (simp add: setState_def Let_def notifyListeners_def)
qed

lemma current_setState_lookup:
  "map_of (current (snd (setState env [(k, v)] s))) k = Some v"
  by (simp add: current_def setState_state map_of_spread)

lemma distinct_current_setState:
  "distinct (map fst (current (snd (setState env ups s))))"
  by (simp add: current_def setState_state distinct_spread)

lemma setState_single_notified:
  assumes "map_of (key_listeners s) k = Some ls" and "map_of (key_listeners s) ''*'' = None"
    and "state s = Some st" and "distinct (map fst st)"
  shows "notified (snd (setState env [(k, v)] s)) =
           notified s @ map (\<lambda>cb. (cb, KeyChange (Some v) (map_of st k))) (map snd ls)"
proof -
  from assms(3) have l: "ensure_loaded s = s" by (simp add: ensure_loaded_def)
  from assms(3) have c: "current s = st" by (simp add: current_def)
  have old: "map_of (spread [] st) k = map_of st k"
    using assms(4) by (simp add: map_of_spread_distinct)
  have new: "map_of (spread (spread [] st) [(k, v)]) k = Some v"
    by (simp add: map_of_spread)
  have c': "current (s\<lparr>state := Some x\<rparr>) = x" for x
    by (simp add: current_def)
  have c'': "current (saveToStorage (s\<lparr>state := Some x\<rparr>)) = x" for x
    by (simp add: current_def)
  show ?thesis
    using assms(1,2)
    by (simp add: setState_def Let_def l c c'' notifyListeners_def call_each_notified old new)
qed

text \<open>
  Claim C8. On a store with no listeners, whatever its state and whatever is persisted:
  after \<open>setState({a: 1})\<close>, \<open>addListener('a', cb)\<close>, \<open>addListener('b', cb')\<close> and
  \<open>setState({a: 2})\<close>, the only callback invocation made by these calls is one call of
  \<open>cb\<close> with \<open>(2, 1)\<close>; the listener on \<open>'b'\<close> is not called.
\<close>

theorem listener_sees_new_and_old:
  "let s0 = \<lparr>state = st, key_listeners = [], persisted = sto, store_console = c, notified = []\<rparr>;
       (r1, s1) = setState env [(''a'', JNum 1)] s0;
       (i1, s2) = addListener ''a'' (Some cb) ida s1;
       (i2, s3) = addListener ''b'' (Some cb') idb s2;
       (r2, s4) = setState env [(''a'', JNum 2)] s3
   in notified s4 = [(cb, KeyChange (Some (JNum 2)) (Some (JNum 1)))]"
proof -
  define s0 where "s0 = \<lparr>state = st, key_listeners = [], persisted = sto, store_console = c,
                          notified = []\<rparr>"
  define s1 where "s1 = snd (setState env [(''a'', JNum 1)] s0)"
  define s3 where "s3 = snd (addListener ''b'' (Some cb') idb (snd (addListener ''a'' (Some cb) ida s1)))"
  have k1: "key_listeners s1 = []" and n1: "notified s1 = []"
    by (simp_all add: s1_def s0_def setState_quiet)
  obtain st1 where st1: "state s1 = Some st1" by (simp add: s1_def setState_state)
  then have cur: "current s1 = st1" by (simp add: current_def)
  have d1: "distinct (map fst st1)"
    using distinct_current_setState [of env "[(''a'', JNum 1)]" s0] cur by (simp add: s1_def)
  have a1: "map_of st1 ''a'' = Some (JNum 1)"
    using current_setState_lookup [of env "''a''" "JNum 1" s0] cur by (simp add: s1_def)
  have k3: "key_listeners s3 = [(''a'', [(ida, cb)]), (''b'', [(idb, cb')])]"
    and n3: "notified s3 = []" and st3: "state s3 = Some st1"
    by (simp_all add: s3_def addListener_def Let_def k1 n1 st1)
  from k3 have la: "map_of (key_listeners s3) ''a'' = Some [(ida, cb)]"
    and lw: "map_of (key_listeners s3) ''*'' = None" by simp_all
  from setState_single_notified [OF la lw st3 d1, of env "JNum 2"] n3 a1
  have "notified (snd (setState env [(''a'', JNum 2)] s3)) =
          [(cb, KeyChange (Some (JNum 2)) (Some (JNum 1)))]" by simp
  then show ?thesis
    by (simp add: Let_def split_beta s3_def s1_def s0_def)
qed

text \<open>
  Claim C9. On the store as the module leaves it when loaded (\<open>_state\<close> is still \<open>null\<close>:
  nothing has called \<open>init\<close>, \<open>getState\<close>, \<open>get\<close> or \<open>setState\<close>), \<open>export()\<close> is the
  serialization of \<open>null\<close>, and \<open>import\<close> of that text answers \<open>false\<close> and changes nothing.
\<close>

theorem export_before_load_is_rejected:
  "exportData (store0 stored) = Serialized JNull \<and>
   importData env (exportData (store0 stored)) (store0 stored) = (False, store0 stored)"
  by (simp add: exportData_def importData_def store0_def stringify_def parse_def truthy_def)

text \<open>
  Once \<open>_state\<close> is an object that has the keys of the defaults, \<open>import(export())\<close>
  succeeds and \<open>getState()\<close> denotes the same mapping afterwards.
\<close>

lemma roundtrip_when_loaded:
  assumes "state s = Some st" and "distinct (map fst st)"
    and "fst ` set DEFAULT_STATE \<subseteq> fst ` set st"
  shows "fst (importData env (exportData s) s) = True \<and>
         map_of (fst (getState (snd (importData env (exportData s) s)))) = map_of (fst (getState s))"
proof -
  have "dom (map_of DEFAULT_STATE) \<subseteq> dom (map_of st)"
    using assms(3) by (simp add: dom_map_of_conv_image_fst)
  then have "map_of DEFAULT_STATE ++ map_of st = map_of st"
    by (auto simp: map_add_def fun_eq_iff split: option.splits)
  moreover have d: "distinct (map fst DEFAULT_STATE)" by (simp add: DEFAULT_STATE_def)
  moreover have "distinct (map fst (spread (spread [] DEFAULT_STATE) st))"
    by (simp add: distinct_spread)
  ultimately show ?thesis
    using assms(1,2)
    by (simp add: importData_def exportData_def stringify_def parse_def truthy_def is_object_def
        own_entries_def Let_def saveToStorage_def getState_def ensure_loaded_def current_def
        map_of_spread_distinct)
qed

end
